theory Spec2Isabelle
  imports Complex_Main "HOL-Library.Signed_Division" "HOL-Library.Log_Nat"
    "HOL-Library.Monad_Syntax"
begin

section \<open>Machine arithmetic of the STM32F103 target\<close>

text \<open>
  On the ARM Cortex-M3 target \<^verbatim>\<open>long\<close> is a 32-bit two's-complement integer and
  \<^verbatim>\<open>unsigned long\<close> a 32-bit unsigned one. Both are modelled as mathematical integers with
  the wrap-around written out. (Signed overflow is undefined in C++; the model takes the
  wrap-around the target produces. Every theorem whose content depends on it carries a
  hypothesis that keeps the values in range.) Division of \<^verbatim>\<open>long\<close> truncates towards zero,
  which is \<open>sdiv\<close>.
\<close>

type_synonym long = int
type_synonym ulong = nat

definition to_long :: "int \<Rightarrow> long" where
  "to_long x = (x + 2 ^ 31) mod 2 ^ 32 - 2 ^ 31"

definition to_ulong :: "int \<Rightarrow> ulong" where
  "to_ulong x = nat (x mod 2 ^ 32)"

definition long_add :: "long \<Rightarrow> long \<Rightarrow> long" where
  "long_add a b = to_long (a + b)"

definition long_sub :: "long \<Rightarrow> long \<Rightarrow> long" where
  "long_sub a b = to_long (a - b)"

definition long_div :: "long \<Rightarrow> long \<Rightarrow> long" where
  "long_div a b = to_long (a sdiv b)"

definition ulong_sub :: "ulong \<Rightarrow> ulong \<Rightarrow> ulong" where
  "ulong_sub a b = to_ulong (int a - int b)"

subsection \<open>Single-precision floating point\<close>

text \<open>
  A \<^verbatim>\<open>float\<close> is an IEEE 754 binary32 number. Its finite values are rationals, and every
  arithmetic operation returns the exact result rounded to the nearest representable
  value, ties to even: 24 significant bits, with the exponent of the last place never
  below \<open>-149\<close> (the subnormal range). The program only ever forms values of magnitude
  below \<open>2 ^ 32\<close>, so infinities and NaN do not occur and are not represented.

  \<open>flog2 x\<close> is the binary exponent of a positive rational, \<open>rne\<close> rounds a rational to
  the nearest integer with ties to even, and \<open>f32_round\<close> rounds to binary32.
\<close>

type_synonym f32 = rat

definition flog2 :: "rat \<Rightarrow> int" where
  "flog2 x = (let (p, q) = quotient_of x; e0 = bitlen p - bitlen q
              in if 2 powi e0 \<le> x then e0 else e0 - 1)"

definition rne :: "rat \<Rightarrow> int" where
  "rne q = (let f = \<lfloor>q\<rfloor>; r = q - of_int f
            in if r < 1 / 2 then f else if 1 / 2 < r then f + 1
               else if even f then f else f + 1)"

definition f32_round :: "rat \<Rightarrow> f32" where
  "f32_round x = (if x = 0 then 0 else
     let e = max (flog2 \<bar>x\<bar>) (- 126); u = 2 powi (e - 23)
     in of_int (rne (x / u)) * u)"

definition f32_of_long :: "long \<Rightarrow> f32" where
  "f32_of_long i = f32_round (of_int i)"

definition f32_mul :: "f32 \<Rightarrow> f32 \<Rightarrow> f32" where
  "f32_mul a b = f32_round (a * b)"

definition f32_div :: "f32 \<Rightarrow> f32 \<Rightarrow> f32" where
  "f32_div a b = f32_round (a / b)"

definition f32_sub :: "f32 \<Rightarrow> f32 \<Rightarrow> f32" where
  "f32_sub a b = f32_round (a - b)"

text \<open>
  Conversion of a \<^verbatim>\<open>float\<close> to \<^verbatim>\<open>long\<close> discards the fraction (truncation towards zero).
  Out of the range of \<^verbatim>\<open>long\<close> the conversion is undefined in C++; the target's conversion
  routine saturates, and so does the model.
\<close>

definition long_of_f32 :: "f32 \<Rightarrow> long" where
  "long_of_f32 x = (let t = (if 0 \<le> x then \<lfloor>x\<rfloor> else \<lceil>x\<rceil>)
     in if t < - (2 ^ 31) then - (2 ^ 31) else if 2 ^ 31 \<le> t then 2 ^ 31 - 1 else t)"

section \<open>Compile-time constants\<close>

definition TARE_SAMPLES :: nat where "TARE_SAMPLES = 10"
definition KNOWN_WEIGHT :: f32 where "KNOWN_WEIGHT = 200"
definition RAW_0G :: long where "RAW_0G = 16773520"
definition RAW_100G :: long where "RAW_100G = 16758735"
definition WEIGHT_DIFFERENCE :: f32 where "WEIGHT_DIFFERENCE = 100"
definition COUNT_DIFFERENCE :: long where "COUNT_DIFFERENCE = long_sub RAW_0G RAW_100G"
definition CALIBRATION_FACTOR :: f32 where
  "CALIBRATION_FACTOR = f32_div WEIGHT_DIFFERENCE (f32_of_long COUNT_DIFFERENCE)"
definition DISPLAY_UPDATE_INTERVAL :: ulong where "DISPLAY_UPDATE_INTERVAL = 1000"

section \<open>The controller and its environment\<close>

text \<open>
  The state is the two fields of class \<^verbatim>\<open>Scale\<close> that the program mutates (\<open>tare\<close>,
  \<open>lastUpdateTime\<close>), the two volatile globals written by the interrupt handlers, and
  the hardware the program talks to:
  \<^item> \<open>clock\<close>: milliseconds since start-up; \<^verbatim>\<open>millis()\<close> returns it modulo \<open>2 ^ 32\<close>;
  \<^item> \<open>ticks\<close>: what the environment does while the program runs. One tick is consumed
    wherever time can pass between two accesses of the volatile flags: by every blocking
    call (\<^verbatim>\<open>scale.read()\<close>, \<^verbatim>\<open>delay\<close>), by every turn of the busy-wait loop, and before
    each test of a flag in \<^verbatim>\<open>loop()\<close>. A tick says how many milliseconds pass and which of
    the two falling-edge interrupts fire meanwhile;
  \<^item> \<open>hx711\<close>: the samples the amplifier will deliver, in order;
  \<^item> \<open>shown\<close>: the calls made to the two display drivers so far, each with the clock
    value at which it was made.
  A blocking call for which the environment has nothing left never returns: the model
  gives \<open>None\<close>.
\<close>

record tick =
  dt :: nat
  calIrq :: bool
  rstIrq :: bool

datatype display_call =
    TmInit
  | TmSetBrightness
  | LcdBegin nat nat
  | LcdClear
  | LcdSetCursor nat nat
  | LcdPrint string
  | LcdPrintFloat f32 nat
  | LcdPrintLong long
  | TmClearDisplay
  | TmDisplayFloat f32

record world =
  tare :: long
  lastUpdateTime :: ulong
  calibratePressed :: bool
  resetPressed :: bool
  clock :: nat
  ticks :: "tick list"
  hx711 :: "long list"
  shown :: "(nat \<times> display_call) list"

text \<open>The object as the constructor leaves it, for a given environment.\<close>

definition Scale :: "tick list \<Rightarrow> long list \<Rightarrow> world" where
  "Scale ks vs = \<lparr>tare = 0, lastUpdateTime = 0, calibratePressed = False,
     resetPressed = False, clock = 0, ticks = ks, hx711 = vs, shown = []\<rparr>"

subsection \<open>Interrupt handlers and the passage of time\<close>

definition onCalibrateButtonPress :: "world \<Rightarrow> world" where
  "onCalibrateButtonPress w = w\<lparr>calibratePressed := True\<rparr>"

definition onResetButtonPress :: "world \<Rightarrow> world" where
  "onResetButtonPress w = w\<lparr>resetPressed := True\<rparr>"

definition fire :: "tick \<Rightarrow> world \<Rightarrow> world" where
  "fire k w = (if rstIrq k then onResetButtonPress else id)
                ((if calIrq k then onCalibrateButtonPress else id) w)"

definition elapse :: "world \<Rightarrow> world option" where
  "elapse w = (case ticks w of
       [] \<Rightarrow> None
     | k # ks \<Rightarrow> Some (fire k (w\<lparr>clock := clock w + dt k, ticks := ks\<rparr>)))"

definition millis :: "world \<Rightarrow> ulong" where
  "millis w = clock w mod 2 ^ 32"

text \<open>\<^verbatim>\<open>delay(ms)\<close> returns after at least \<open>ms\<close> milliseconds.\<close>

definition delay :: "nat \<Rightarrow> world \<Rightarrow> world option" where
  "delay ms w = do { w' \<leftarrow> elapse w; Some (w'\<lparr>clock := clock w' + ms\<rparr>) }"

subsection \<open>The collaborators\<close>

text \<open>\<^verbatim>\<open>scale.read()\<close> blocks until a sample is ready and returns it as a \<^verbatim>\<open>long\<close>.\<close>

definition scale_read :: "world \<Rightarrow> (long \<times> world) option" where
  "scale_read w = do {
     w' \<leftarrow> elapse w;
     case hx711 w' of
       [] \<Rightarrow> None
     | v # vs \<Rightarrow> Some (to_long v, w'\<lparr>hx711 := vs\<rparr>) }"

definition display :: "display_call \<Rightarrow> world \<Rightarrow> world" where
  "display c w = w\<lparr>shown := shown w @ [(clock w, c)]\<rparr>"

subsection \<open>The methods of class Scale\<close>

text \<open>
  The summing loop \<^verbatim>\<open>for (int i = 0; i < TARE_SAMPLES; i++) sum += scale.read();\<close>, which
  \<^verbatim>\<open>tareScale\<close> and \<^verbatim>\<open>calibrateScale\<close> both contain. The first argument counts the turns left.
\<close>

fun sample_sum :: "nat \<Rightarrow> long \<Rightarrow> world \<Rightarrow> (long \<times> world) option" where
  "sample_sum 0 acc w = Some (acc, w)"
| "sample_sum (Suc n) acc w = do {
     (v, w') \<leftarrow> scale_read w;
     sample_sum n (long_add acc v) w' }"

definition tareScale :: "world \<Rightarrow> world option" where
  "tareScale w = do {
     (acc, w') \<leftarrow> sample_sum TARE_SAMPLES 0 w;
     Some (w'\<lparr>tare := long_div acc (int TARE_SAMPLES)\<rparr>) }"

definition getWeight :: "world \<Rightarrow> (f32 \<times> world) option" where
  "getWeight w = do {
     (raw, w') \<leftarrow> scale_read w;
     Some (f32_mul (f32_mul (f32_of_long (long_sub raw (tare w'))) CALIBRATION_FACTOR)
             (f32_of_long (- 1)), w') }"

definition resetScale :: "world \<Rightarrow> world option" where
  "resetScale w = do {
     let w = display LcdClear w;
     let w = display TmClearDisplay w;
     let w = display (LcdSetCursor 0 0) w;
     let w = display (LcdPrint ''Resetting...'') w;
     let w = w\<lparr>tare := 0\<rparr>;
     w \<leftarrow> delay 2000 w;
     let w = display LcdClear w;
     let w = display (LcdSetCursor 0 0) w;
     let w = display (LcdPrint ''Reset Done'') w;
     w \<leftarrow> delay 2000 w;
     let w = display LcdClear w;
     tareScale w }"

text \<open>
  The busy-wait of \<^verbatim>\<open>calibrateScale\<close>:
  \<^verbatim>\<open>while (millis() - startTime < 5000) { if (resetPressed) { ... return; } }\<close>.
  The result tells how the loop was left: \<open>Aborted\<close> when a turn saw the reset flag set,
  \<open>Expired\<close> when the five seconds were over.
\<close>

datatype wait_result = Aborted world | Expired world

function wait_for_reset :: "ulong \<Rightarrow> world \<Rightarrow> wait_result option" where
  "wait_for_reset startTime w =
     (case elapse w of
        None \<Rightarrow> None
      | Some w' \<Rightarrow>
          if ulong_sub (millis w') startTime < 5000
          then (if resetPressed w' then Some (Aborted w') else wait_for_reset startTime w')
          else Some (Expired w'))"
  by pat_completeness auto
termination
  by (relation "measure (\<lambda>(s, w). length (ticks w))")
     (auto simp: elapse_def fire_def onCalibrateButtonPress_def onResetButtonPress_def
           split: list.splits)

declare wait_for_reset.simps [simp del]

fun outcome :: "wait_result \<Rightarrow> world" where
  "outcome (Aborted w) = w"
| "outcome (Expired w) = w"

fun aborted :: "wait_result \<Rightarrow> bool" where
  "aborted (Aborted w) = True"
| "aborted (Expired w) = False"

definition calibrateScale :: "world \<Rightarrow> world option" where
  "calibrateScale w = do {
     let w = display LcdClear w;
     let w = display (LcdSetCursor 0 0) w;
     let w = display (LcdPrint ''Put 200g Weight'') w;
     let startTime = millis w;
     r \<leftarrow> wait_for_reset startTime w;
     case r of
       Aborted w \<Rightarrow> do {
         w \<leftarrow> resetScale w;
         Some (w\<lparr>resetPressed := False\<rparr>) }
     | Expired w \<Rightarrow> do {
         (acc, w) \<leftarrow> sample_sum TARE_SAMPLES 0 w;
         let raw_known_weight = long_div acc (int TARE_SAMPLES);
         let w = w\<lparr>tare := long_of_f32 (f32_sub (f32_of_long raw_known_weight)
                                  (f32_div KNOWN_WEIGHT CALIBRATION_FACTOR))\<rparr>;
         let w = display TmClearDisplay w;
         let w = display LcdClear w;
         let w = display (LcdSetCursor 0 0) w;
         let w = display (LcdPrint ''Calibration Done'') w;
         w \<leftarrow> delay 2000 w;
         Some (display LcdClear w) } }"

definition updateDisplay :: "world \<Rightarrow> world option" where
  "updateDisplay w = do {
     (weight, w) \<leftarrow> getWeight w;
     let w = display (TmDisplayFloat weight) w;
     let w = display (LcdSetCursor 0 0) w;
     let w = display (LcdPrint ''Weight: '') w;
     let w = display (LcdPrintFloat weight 2) w;
     let w = display (LcdPrint '' KG'') w;
     let w = display (LcdSetCursor 0 1) w;
     let w = display (LcdPrint ''Count: '') w;
     (count, w) \<leftarrow> scale_read w;
     Some (display (LcdPrintLong count) w) }"

text \<open>One call of \<^verbatim>\<open>Scale::loop()\<close>.\<close>

definition loop :: "world \<Rightarrow> world option" where
  "loop w = do {
     w \<leftarrow> elapse w;
     let currentTime = millis w;
     w \<leftarrow> (if calibratePressed w
           then do { w \<leftarrow> calibrateScale w; Some (w\<lparr>calibratePressed := False\<rparr>) }
           else Some w);
     w \<leftarrow> elapse w;
     if resetPressed w
     then do { w \<leftarrow> resetScale w; Some (w\<lparr>resetPressed := False\<rparr>) }
     else if DISPLAY_UPDATE_INTERVAL \<le> ulong_sub currentTime (lastUpdateTime w)
     then do { w \<leftarrow> updateDisplay w; Some (w\<lparr>lastUpdateTime := currentTime\<rparr>) }
     else Some w }"

text \<open>
  \<^verbatim>\<open>Scale::setup()\<close>. The drivers are initialised (the brightness is the driver's constant
  \<^verbatim>\<open>BRIGHT_TYPICAL\<close>), the amplifier and the two button pins are configured and the
  interrupt handlers attached, which changes nothing in the state of the model: the ticks
  of the environment begin there.
\<close>

definition Scale_setup :: "world \<Rightarrow> world option" where
  "Scale_setup w = do {
     let w = display TmInit w;
     let w = display TmSetBrightness w;
     let w = display (LcdBegin 16 2) w;
     let w = display (LcdSetCursor 0 0) w;
     let w = display (LcdPrint ''HX711 Calibrate'') w;
     let w = display (LcdSetCursor 0 1) w;
     let w = display (LcdPrint ''No weight'') w;
     w \<leftarrow> delay 2000 w;
     let w = display LcdClear w;
     w \<leftarrow> tareScale w;
     let w = display (LcdSetCursor 0 0) w;
     let w = display (LcdPrint ''Calibrating...'') w;
     w \<leftarrow> delay 2000 w;
     Some (display LcdClear w) }"

text \<open>
  The Arduino core calls \<^verbatim>\<open>setup()\<close> once and then \<^verbatim>\<open>loop()\<close> again and again; \<open>run n\<close> is
  \<open>n\<close> calls of \<^verbatim>\<open>loop()\<close>, and \<open>boot n\<close> is the program from power-on up to the end of the
  \<open>n\<close>-th call.
\<close>

fun run :: "nat \<Rightarrow> world \<Rightarrow> world option" where
  "run 0 w = Some w"
| "run (Suc n) w = do { w \<leftarrow> loop w; run n w }"

definition boot :: "nat \<Rightarrow> world \<Rightarrow> world option" where
  "boot n w = do { w \<leftarrow> Scale_setup w; run n w }"

section \<open>Reading an execution\<close>

text \<open>
  Each of the three actions of the controller starts with a display call that nothing
  else makes: the calibration prompt, the reset message, and the weight on the
  seven-segment display. A completed calibration ends with its own message. The display
  log therefore tells which actions ran, and in which order.
\<close>

datatype action = Calibrate | Calibrated | Reset | Refresh

fun action_of :: "display_call \<Rightarrow> action list" where
  "action_of (LcdPrint s) =
     (if s = ''Put 200g Weight'' then [Calibrate]
      else if s = ''Calibration Done'' then [Calibrated]
      else if s = ''Resetting...'' then [Reset]
      else [])"
| "action_of (TmDisplayFloat v) = [Refresh]"
| "action_of c = []"

definition actions :: "world \<Rightarrow> action list" where
  "actions w = concat (map (action_of \<circ> snd) (shown w))"

text \<open>The clock values at which the weight was put on the seven-segment display.\<close>

definition refresh_times :: "world \<Rightarrow> nat list" where
  "refresh_times w = map fst (filter (\<lambda>e. action_of (snd e) = [Refresh]) (shown w))"

text \<open>
  The ticks used up between an earlier and a later state, and what it means that the
  code in between wrote neither flag nor \<open>lastUpdateTime\<close>: the refresh stamp is the
  same, and a flag is set afterwards exactly when it was set before or its interrupt
  fired in one of those ticks.
\<close>

definition consumed :: "world \<Rightarrow> world \<Rightarrow> tick list" where
  "consumed w w' = take (length (ticks w) - length (ticks w')) (ticks w)"

definition no_write :: "world \<Rightarrow> world \<Rightarrow> bool" where
  "no_write w w' \<longleftrightarrow>
     lastUpdateTime w' = lastUpdateTime w \<and>
     ticks w = consumed w w' @ ticks w' \<and>
     calibratePressed w' = (calibratePressed w \<or> list_ex calIrq (consumed w w')) \<and>
     resetPressed w' = (resetPressed w \<or> list_ex rstIrq (consumed w w'))"

text \<open>The same for the calibrate flag alone.\<close>

definition cal_by_irq :: "world \<Rightarrow> world \<Rightarrow> bool" where
  "cal_by_irq w w' \<longleftrightarrow>
     ticks w = consumed w w' @ ticks w' \<and>
     calibratePressed w' = (calibratePressed w \<or> list_ex calIrq (consumed w w'))"

text \<open>
  The settings of the reset flag that can still be seen from a state on: the flag itself
  when it is set, and the reset interrupts that are yet to fire.
\<close>

definition reset_budget :: "world \<Rightarrow> nat" where
  "reset_budget w = of_bool (resetPressed w) + length (filter rstIrq (ticks w))"

text \<open>
  Names for the states inside one call of \<^verbatim>\<open>calibrateScale()\<close> and of \<^verbatim>\<open>loop()\<close>:
  \<open>prompted\<close> is the state in which the busy-wait starts, \<open>calibrate_if_pressed\<close> is the
  first \<^verbatim>\<open>if\<close> of \<^verbatim>\<open>loop()\<close>, and \<open>reset_or_refresh\<close> is what follows the test of the reset flag,
  given the time sampled on entry.
\<close>

definition prompted :: "world \<Rightarrow> world" where
  "prompted w = display (LcdPrint ''Put 200g Weight'') (display (LcdSetCursor 0 0)
     (display LcdClear w))"

definition calibrate_if_pressed :: "world \<Rightarrow> world option" where
  "calibrate_if_pressed w =
     (if calibratePressed w
      then do { w \<leftarrow> calibrateScale w; Some (w\<lparr>calibratePressed := False\<rparr>) }
      else Some w)"

definition reset_or_refresh :: "ulong \<Rightarrow> world \<Rightarrow> world option" where
  "reset_or_refresh currentTime w =
     (if resetPressed w
      then do { w \<leftarrow> resetScale w; Some (w\<lparr>resetPressed := False\<rparr>) }
      else if DISPLAY_UPDATE_INTERVAL \<le> ulong_sub currentTime (lastUpdateTime w)
      then do { w \<leftarrow> updateDisplay w; Some (w\<lparr>lastUpdateTime := currentTime\<rparr>) }
      else Some w)"

text \<open>
  The busy-wait of the calibration action, started in state \<open>w\<close>, comes to an end within
  its first \<open>n + 1\<close> turns: by then either a turn made inside the five seconds finds the
  reset flag set, or the five seconds are over (and the 32-bit clock has not wrapped
  around meanwhile).
\<close>

definition wait_ends :: "nat \<Rightarrow> world \<Rightarrow> bool" where
  "wait_ends n w \<longleftrightarrow>
     (let ks = take (Suc n) (ticks w); e = sum_list (map dt ks)
      in e < 5000 \<and> (resetPressed w \<or> list_ex rstIrq ks) \<or> 5000 \<le> e \<and> e < 2 ^ 32)"

section \<open>Environments used to run the model\<close>

text \<open>A tick of \<open>d\<close> milliseconds in which no button is pressed.\<close>

definition quiet :: "nat \<Rightarrow> tick" where
  "quiet d = \<lparr>dt = d, calIrq = False, rstIrq = False\<rparr>"

text \<open>
  Ten samples are taken while the amplifier delivers one sample every 100 ms: the first
  scale is unloaded and steady at the count \<open>RAW_0G\<close>, the second sees one count of noise
  in its first sample.
\<close>

definition steady_scale :: world where
  "steady_scale = Scale (replicate 10 (quiet 100)) (replicate 10 16773520)"

definition noisy_scale :: world where
  "noisy_scale = Scale (replicate 10 (quiet 100))
     [16773521, 16773520, 16773520, 16773520, 16773520,
      16773520, 16773520, 16773520, 16773520, 16773520]"

text \<open>
  The scale was tared at the count \<open>RAW_0G\<close> and now carries 100 g: the amplifier delivers
  \<open>RAW_100G\<close>. The second world differs from the first in everything but the tare and the
  sample: another time, another refresh stamp, the calibrate flag set, and a reset
  interrupt arriving during the read.
\<close>

definition loaded_100g :: world where
  "loaded_100g = (Scale [quiet 100] [16758735])\<lparr>tare := 16773520\<rparr>"

definition loaded_100g_later :: world where
  "loaded_100g_later = \<lparr>tare = 16773520, lastUpdateTime = 41000, calibratePressed = True,
     resetPressed = False, clock = 42000,
     ticks = [\<lparr>dt = 12, calIrq = False, rstIrq = True\<rparr>], hx711 = [16758735, 7],
     shown = [(41000, LcdClear)]\<rparr>"

text \<open>
  Three sessions at the buttons from power-on, with the amplifier delivering a sample every
  100 ms. In all of them the calibrate button is pressed while \<^verbatim>\<open>setup()\<close> shows its first
  message, the scale is tared unloaded at \<open>RAW_0G\<close>, and the first call of \<^verbatim>\<open>loop()\<close> is
  entered one millisecond after \<^verbatim>\<open>setup()\<close> has returned; the busy-wait of the calibration
  is shown in turns of one second. In the first session 200 g are put on the scale and
  nothing else happens. In the second the scale stays unloaded and the reset button is
  pressed during the third second of the wait. In the third 200 g are put on the scale and
  the reset button is pressed at the very end of the wait: the last turn that tests the
  flag is made 4999 ms after the wait began, and the interrupt fires in the millisecond
  after it. The environment goes on for some ticks after the second call of \<^verbatim>\<open>loop()\<close>.
  \<open>calibrate_session\<close>, \<open>reset_session\<close> and \<open>late_reset_session\<close> are the states in
  which \<^verbatim>\<open>setup()\<close> leaves the three.
\<close>

definition calibrate_boot :: world where
  "calibrate_boot = Scale
     ([\<lparr>dt = 0, calIrq = True, rstIrq = False\<rparr>] @ replicate 10 (quiet 100) @ [quiet 0] @
      [quiet 1] @ replicate 5 (quiet 1000) @ replicate 10 (quiet 100) @
      [quiet 0, quiet 0, quiet 100, quiet 100] @
      [quiet 1, quiet 0, quiet 100, quiet 100] @ replicate 8 (quiet 100))
     (replicate 10 16773520 @ replicate 22 16743950)"

definition reset_boot :: world where
  "reset_boot = Scale
     ([\<lparr>dt = 0, calIrq = True, rstIrq = False\<rparr>] @ replicate 10 (quiet 100) @ [quiet 0] @
      [quiet 1, quiet 1000, quiet 1000, \<lparr>dt = 1000, calIrq = False, rstIrq = True\<rparr>,
       quiet 0, quiet 0] @
      replicate 10 (quiet 100) @ [quiet 0, quiet 100, quiet 100] @
      [quiet 1, quiet 0, quiet 100, quiet 100] @ replicate 8 (quiet 100))
     (replicate 32 16773520)"

definition late_reset_boot :: world where
  "late_reset_boot = Scale
     ([\<lparr>dt = 0, calIrq = True, rstIrq = False\<rparr>] @ replicate 10 (quiet 100) @ [quiet 0] @
      [quiet 1] @ replicate 4 (quiet 1000) @
      [quiet 999, \<lparr>dt = 1, calIrq = False, rstIrq = True\<rparr>] @
      replicate 10 (quiet 100) @ [quiet 0, quiet 0, quiet 0, quiet 0] @
      replicate 10 (quiet 100) @ replicate 8 (quiet 100))
     (replicate 10 16773520 @ replicate 22 16743950)"

definition setup_log :: "(nat \<times> display_call) list" where
  "setup_log =
     [(0, TmInit), (0, TmSetBrightness), (0, LcdBegin 16 2), (0, LcdSetCursor 0 0),
      (0, LcdPrint ''HX711 Calibrate''), (0, LcdSetCursor 0 1), (0, LcdPrint ''No weight''),
      (2000, LcdClear), (3000, LcdSetCursor 0 0), (3000, LcdPrint ''Calibrating...''),
      (5000, LcdClear)]"

definition calibrate_session :: world where
  "calibrate_session = \<lparr>tare = 16773520, lastUpdateTime = 0, calibratePressed = True,
     resetPressed = False, clock = 5000,
     ticks = [quiet 1] @ replicate 5 (quiet 1000) @ replicate 10 (quiet 100) @
       [quiet 0, quiet 0, quiet 100, quiet 100] @ [quiet 1, quiet 0, quiet 100, quiet 100] @
       replicate 8 (quiet 100),
     hx711 = replicate 22 16743950, shown = setup_log\<rparr>"

definition reset_session :: world where
  "reset_session = \<lparr>tare = 16773520, lastUpdateTime = 0, calibratePressed = True,
     resetPressed = False, clock = 5000,
     ticks = [quiet 1, quiet 1000, quiet 1000, \<lparr>dt = 1000, calIrq = False, rstIrq = True\<rparr>,
       quiet 0, quiet 0] @ replicate 10 (quiet 100) @ [quiet 0, quiet 100, quiet 100] @
       [quiet 1, quiet 0, quiet 100, quiet 100] @ replicate 8 (quiet 100),
     hx711 = replicate 22 16773520, shown = setup_log\<rparr>"

definition late_reset_session :: world where
  "late_reset_session = \<lparr>tare = 16773520, lastUpdateTime = 0, calibratePressed = True,
     resetPressed = False, clock = 5000,
     ticks = [quiet 1] @ replicate 4 (quiet 1000) @
       [quiet 999, \<lparr>dt = 1, calIrq = False, rstIrq = True\<rparr>] @
       replicate 10 (quiet 100) @ [quiet 0, quiet 0, quiet 0, quiet 0] @
       replicate 10 (quiet 100) @ replicate 8 (quiet 100),
     hx711 = replicate 22 16743950, shown = setup_log\<rparr>"

text \<open>
  A session from power-on in which no button is pressed. The first call of \<^verbatim>\<open>loop()\<close> is
  entered at 5001 and refreshes the display; the amplifier has its sample ready 10 ms
  after the read began. The calls that find nothing to do are shown as one call, entered
  at 5556 (however many they are, they leave the program as it is). The third call is entered at 6001 and refreshes again; this time the amplifier
  takes 90 ms to deliver the sample.
\<close>

definition quiet_boot :: world where
  "quiet_boot = Scale
     ([quiet 0] @ replicate 10 (quiet 100) @ [quiet 0] @
      [quiet 1, quiet 0, quiet 10, quiet 100] @ [quiet 445, quiet 0] @
      [quiet 445, quiet 0, quiet 90, quiet 100])
     (replicate 14 16773520)"

text \<open>
  The calibration action on its own, entered with a reset arriving in the third second of
  its wait, and entered with 200 g on the scale and a reset arriving in the last
  millisecond of its wait; the reset action on a steady unloaded scale; and a calibration
  with 200 g on the scale (the amplifier delivers 16743950, which is \<open>RAW_0G\<close> less the
  29570 counts of 200 g), followed by one more sample.
\<close>

definition reset_during_wait :: world where
  "reset_during_wait = (Scale
     ([quiet 1000, quiet 1000, \<lparr>dt = 1000, calIrq = False, rstIrq = True\<rparr>, quiet 0, quiet 0] @
      replicate 10 (quiet 100))
     (replicate 10 16773520))\<lparr>tare := 16714380, calibratePressed := True\<rparr>"

definition reset_at_deadline :: world where
  "reset_at_deadline = (Scale
     (replicate 4 (quiet 1000) @ [quiet 999, \<lparr>dt = 1, calIrq = False, rstIrq = True\<rparr>] @
      replicate 10 (quiet 100) @ [quiet 0, quiet 0])
     (replicate 10 16743950))\<lparr>tare := 16773520, calibratePressed := True\<rparr>"

definition unloaded_scale :: world where
  "unloaded_scale = (Scale (replicate 13 (quiet 100)) (replicate 11 16773520))
     \<lparr>tare := 16714380, resetPressed := True\<rparr>"

definition calibrating_200g :: world where
  "calibrating_200g = (Scale
     (replicate 5 (quiet 1000) @ replicate 10 (quiet 100) @ [quiet 0, quiet 100])
     (replicate 11 16743950))\<lparr>tare := 16773520, calibratePressed := True\<rparr>"

section \<open>Facts about the machine arithmetic\<close>

lemma to_long_id: "- (2 ^ 31) \<le> x \<Longrightarrow> x < 2 ^ 31 \<Longrightarrow> to_long x = x"
  by (simp add: to_long_def)

lemma sdiv_abs_le: "\<bar>a sdiv 10\<bar> \<le> \<bar>a :: int\<bar>"
proof -
  have "\<bar>a sdiv 10\<bar> = \<bar>a\<bar> div 10"
    by (auto simp: signed_divide_int_def abs_mult sgn_if)
  also have "\<dots> \<le> \<bar>a\<bar>" by linarith
  finally show ?thesis .
qed

lemma sdiv_ten_times: "(10 * v) sdiv 10 = (v :: int)"
  by (simp add: signed_divide_int_def abs_mult sgn_mult mult_sgn_abs)

text \<open>Division of a \<^verbatim>\<open>long\<close> by ten is the exact quotient with its fraction discarded.\<close>

lemma sdiv_trunc:
  fixes S :: int
  shows "rat_of_int (S sdiv 10) =
    (if 0 \<le> S then of_int \<lfloor>of_int S / (10::rat)\<rfloor> else of_int \<lceil>of_int S / (10::rat)\<rceil>)"
proof (cases "0 \<le> S")
  case True
  then have "S sdiv 10 = S div 10" by (simp add: signed_divide_int_def sgn_if)
  moreover have "\<lfloor>of_int S / (10::rat)\<rfloor> = S div 10"
    using floor_divide_of_int_eq[of S 10, where ?'a = rat] by simp
  ultimately show ?thesis using True by simp
next
  case False
  then have "S sdiv 10 = - ((- S) div 10)" by (simp add: signed_divide_int_def sgn_if)
  moreover have "\<lceil>of_int S / (10::rat)\<rceil> = - \<lfloor>of_int (- S) / (10::rat)\<rfloor>"
    by (simp add: ceiling_def)
  moreover have "\<lfloor>of_int (- S) / (10::rat)\<rfloor> = (- S) div 10"
    using floor_divide_of_int_eq[of "- S" 10, where ?'a = rat] by simp
  ultimately show ?thesis using False by simp
qed

text \<open>A sum that stays inside the range of \<^verbatim>\<open>long\<close> is the mathematical sum.\<close>

lemma foldl_long_add:
  "\<forall>v\<in>set vs. \<bar>v\<bar> \<le> B \<Longrightarrow> \<bar>acc\<bar> + B * int (length vs) < 2 ^ 31 \<Longrightarrow>
     foldl long_add acc vs = acc + sum_list vs"
proof (induction vs arbitrary: acc)
  case Nil
  then show ?case by simp
next
  case (Cons v vs)
  have v: "\<bar>v\<bar> \<le> B" using Cons.prems by simp
  have b: "\<bar>acc\<bar> + B * (1 + int (length vs)) < 2 ^ 31" using Cons.prems by simp
  have "\<bar>acc + v\<bar> \<le> \<bar>acc\<bar> + B" using v by linarith
  moreover have "0 \<le> B" using v by linarith
  then have "0 \<le> B * int (length vs)" by simp
  ultimately have r: "\<bar>acc + v\<bar> < 2 ^ 31" "\<bar>acc + v\<bar> + B * int (length vs) < 2 ^ 31"
    using b by (simp_all add: algebra_simps)
  then have "long_add acc v = acc + v" by (simp add: long_add_def to_long_id)
  with Cons.IH[of "acc + v"] Cons.prems r show ?case by simp
qed

subsection \<open>Rounding to binary32\<close>

lemma rne_err: "\<bar>of_int (rne q) - q\<bar> \<le> 1 / 2"
proof -
  have "of_int \<lfloor>q\<rfloor> \<le> q" "q < of_int \<lfloor>q\<rfloor> + 1" by linarith+
  then show ?thesis by (auto simp: rne_def Let_def)
qed

lemma rne_of_int [simp]: "rne (of_int n) = n"
  by (simp add: rne_def)

lemma rne_minus: "rne (- q) = - rne q"
proof (cases "q \<in> \<int>")
  case True
  then obtain n where "q = of_int n" by (auto elim: Ints_cases)
  then show ?thesis by (simp flip: of_int_minus)
next
  case False
  then have ne: "q \<noteq> of_int \<lfloor>q\<rfloor>" by (metis Ints_of_int)
  then have f: "\<lfloor>- q\<rfloor> = - \<lfloor>q\<rfloor> - 1"
    by (simp add: floor_minus ceiling_altdef)
  have "of_int \<lfloor>q\<rfloor> \<le> q" by linarith
  with ne have lt: "of_int \<lfloor>q\<rfloor> < q" by linarith
  have "q < of_int \<lfloor>q\<rfloor> + 1" by linarith
  show ?thesis
    unfolding rne_def Let_def f using lt \<open>q < of_int \<lfloor>q\<rfloor> + 1\<close>
    by (auto simp: algebra_simps)
qed

lemma two_powi_pos [simp]: "0 < (2::rat) powi k"
  by (simp add: zero_less_power_int)

lemma bitlen_powi:
  assumes "0 < p"
  shows "(2::rat) powi (bitlen p - 1) \<le> of_int p" "of_int p < (2::rat) powi bitlen p"
proof -
  from assms have b: "1 \<le> bitlen p" by (auto simp: bitlen_alt_def)
  from bitlen_bounds[OF assms] have "2 ^ nat (bitlen p - 1) \<le> p" "p < 2 ^ nat (bitlen p)" by auto
  then have "(of_int (2 ^ nat (bitlen p - 1)) :: rat) \<le> of_int p" "(of_int p :: rat) < of_int (2 ^ nat (bitlen p))"
    by (simp_all only: of_int_le_iff of_int_less_iff)
  then show "(2::rat) powi (bitlen p - 1) \<le> of_int p" "of_int p < (2::rat) powi bitlen p"
    using b by (simp_all add: power_int_def)
qed

lemma flog2_bounds:
  assumes "0 < x"
  shows "2 powi flog2 x \<le> x" "x < 2 powi (flog2 x + 1)"
proof -
  obtain p q where pq: "quotient_of x = (p, q)" by (cases "quotient_of x")
  then have q: "0 < q" and x: "x = of_int p / of_int q"
    by (simp_all add: quotient_of_denom_pos quotient_of_div)
  with assms have p: "0 < p" by (simp add: zero_less_divide_iff)
  note bp = bitlen_powi[OF p] and bq = bitlen_powi[OF q]
  have Q: "(0::rat) < of_int q" using q by simp
  have lo: "(2::rat) powi (bitlen p - bitlen q - 1) \<le> x"
  proof -
    have "(2::rat) powi (bitlen p - bitlen q - 1) = 2 powi (bitlen p - 1) / 2 powi bitlen q"
      by (simp add: power_int_diff)
    also have "\<dots> \<le> of_int p / 2 powi bitlen q"
      using bp(1) by (simp add: divide_right_mono)
    also have "\<dots> \<le> of_int p / of_int q"
      using bq(2) p Q by (simp add: frac_le)
    finally show ?thesis by (simp add: x)
  qed
  have hi: "x < (2::rat) powi (bitlen p - bitlen q + 1)"
  proof -
    have "x = of_int p / of_int q" by (rule x)
    also have "\<dots> < 2 powi bitlen p / of_int q"
      using bp(2) Q by (simp add: divide_strict_right_mono)
    also have "\<dots> \<le> 2 powi bitlen p / 2 powi (bitlen q - 1)"
      using bq(1) by (simp add: frac_le)
    also have "\<dots> = 2 powi (bitlen p - bitlen q + 1)"
      by (simp add: power_int_diff power_int_add)
    finally show ?thesis .
  qed
  show "2 powi flog2 x \<le> x" using lo by (auto simp: flog2_def pq Let_def)
  show "x < 2 powi (flog2 x + 1)" using hi by (auto simp: flog2_def pq Let_def not_le)
qed

lemma two_powi_less_iff: "(2::rat) powi a < 2 powi b \<longleftrightarrow> a < b"
proof
  assume l: "(2::rat) powi a < 2 powi b"
  show "a < b"
  proof (rule ccontr)
    assume "\<not> a < b"
    then have "(2::rat) powi b \<le> 2 powi a" by (intro power_int_increasing) auto
    with l show False by simp
  qed
next
  assume "a < b"
  then show "(2::rat) powi a < 2 powi b" by (intro power_int_strict_increasing) auto
qed

lemma two_powi_le_iff: "(2::rat) powi a \<le> 2 powi b \<longleftrightarrow> a \<le> b"
  using two_powi_less_iff[of b a] by (auto simp: not_less[symmetric])

lemma flog2_unique:
  assumes "2 powi e \<le> x" "x < 2 powi (e + 1)"
  shows "flog2 x = e"
proof -
  have x: "0 < x" using assms(1) two_powi_pos[of e] by linarith
  note b = flog2_bounds[OF x]
  have "2 powi e < (2::rat) powi (flog2 x + 1)" using assms(1) b(2) by linarith
  moreover have "2 powi flog2 x < (2::rat) powi (e + 1)" using assms(2) b(1) by linarith
  ultimately show ?thesis by (simp add: two_powi_less_iff)
qed

lemma f32_round_minus: "f32_round (- x) = - f32_round x"
  by (simp add: f32_round_def Let_def rne_minus)

text \<open>The error of one rounding.\<close>

lemma f32_round_err:
  assumes "2 powi (- 126) \<le> \<bar>x\<bar>"
  shows "\<bar>f32_round x - x\<bar> \<le> \<bar>x\<bar> / 2 ^ 24"
proof -
  have x0: "x \<noteq> 0" "0 < \<bar>x\<bar>" using assms two_powi_pos[of "- 126"] by auto
  define e where "e = flog2 \<bar>x\<bar>"
  note b = flog2_bounds[OF x0(2), folded e_def]
  have "(2::rat) powi (- 126) < 2 powi (e + 1)" using assms b(2) by linarith
  then have "- 126 < e + 1" by (simp only: two_powi_less_iff)
  then have e: "- 126 \<le> e" by simp
  define u :: rat where "u = 2 powi (e - 23)"
  have u: "0 < u" by (simp add: u_def)
  have r: "f32_round x = of_int (rne (x / u)) * u"
    using x0 e by (simp add: f32_round_def Let_def e_def u_def max_def)
  have "f32_round x - x = (of_int (rne (x / u)) - x / u) * u"
    using u by (simp add: r field_simps)
  then have "\<bar>f32_round x - x\<bar> = \<bar>of_int (rne (x / u)) - x / u\<bar> * u"
    using u by (simp add: abs_mult)
  also have "\<dots> \<le> 1 / 2 * u"
    using rne_err[of "x / u"] u by (intro mult_right_mono) auto
  also have "\<dots> = 2 powi e / 2 ^ 24"
    by (simp add: u_def power_int_diff)
  also have "\<dots> \<le> \<bar>x\<bar> / 2 ^ 24"
    using b(1) by (simp add: divide_right_mono)
  finally show ?thesis .
qed

text \<open>Numbers with a 24-bit significand are left as they are.\<close>

lemma f32_round_repr:
  assumes m: "\<bar>m\<bar> \<le> 2 ^ 24" and k: "- 149 \<le> k"
  shows "f32_round (of_int m * 2 powi k) = of_int m * 2 powi k"
proof (cases "m = 0")
  case True
  then show ?thesis by (simp add: f32_round_def)
next
  case False
  define y :: rat where "y = of_int m * 2 powi k"
  have y0: "y \<noteq> 0" "0 < \<bar>y\<bar>" using False by (simp_all add: y_def)
  have ay: "\<bar>y\<bar> = of_int \<bar>m\<bar> * 2 powi k" by (simp add: y_def abs_mult)
  define e where "e = flog2 \<bar>y\<bar>"
  note b = flog2_bounds[OF y0(2), folded e_def]
  define j where "j = max e (- 126) - 23"
  have r: "f32_round y = of_int (rne (y / 2 powi j)) * 2 powi j"
    using y0 by (simp add: f32_round_def Let_def e_def j_def)
  have "of_int \<bar>m\<bar> \<le> (2 ^ 24 :: rat)" using m by (metis of_int_le_iff of_int_numeral of_int_power)
  then have "\<bar>y\<bar> \<le> 2 ^ 24 * 2 powi k" unfolding ay by (intro mult_right_mono) auto
  also have "\<dots> = 2 powi (24 + k)" by (simp add: power_int_add)
  finally have "(2::rat) powi e \<le> 2 powi (24 + k)" using b(1) by linarith
  then have ek: "e \<le> 24 + k" by (simp add: two_powi_le_iff)
  have "\<exists>n. y = of_int n * 2 powi j"
  proof (cases "e = 24 + k")
    case True
    have "(2::rat) powi (24 + k) \<le> of_int \<bar>m\<bar> * 2 powi k" using b(1) True ay by simp
    then have "(2 ^ 24 :: rat) * 2 powi k \<le> of_int \<bar>m\<bar> * 2 powi k" by (simp add: power_int_add)
    then have "(2 ^ 24 :: rat) \<le> of_int \<bar>m\<bar>" by simp
    then have "2 ^ 24 \<le> \<bar>m\<bar>" by (metis of_int_le_iff of_int_numeral of_int_power)
    with m have am: "\<bar>m\<bar> = 2 ^ 24" by simp
    have j: "j = k + 1" using True k by (simp add: j_def)
    have "m = 2 ^ 24 \<or> m = - (2 ^ 24)" using am by linarith
    then show ?thesis
    proof
      assume "m = 2 ^ 24"
      then have "y = of_int (2 ^ 23) * 2 powi j" by (simp add: y_def j power_int_add)
      then show ?thesis by blast
    next
      assume "m = - (2 ^ 24)"
      then have "y = of_int (- (2 ^ 23)) * 2 powi j" by (simp add: y_def j power_int_add)
      then show ?thesis by blast
    qed
  next
    case False
    with ek k have jk: "j \<le> k" by (simp add: j_def)
    have "(2::rat) powi k = 2 powi (k - j) * 2 powi j" by (simp flip: power_int_add)
    also have "(2::rat) powi (k - j) = of_int (2 ^ nat (k - j))" using jk by (simp add: power_int_def)
    finally have "y = of_int (m * 2 ^ nat (k - j)) * 2 powi j" by (simp add: y_def)
    then show ?thesis by blast
  qed
  then obtain n where n: "y = of_int n * 2 powi j" by blast
  then have "y / 2 powi j = of_int n" by simp
  with r n show ?thesis by (simp add: y_def)
qed

lemma f32_round_form:
  "\<exists>m k. f32_round x = of_int m * 2 powi k \<and> \<bar>m\<bar> \<le> 2 ^ 24 \<and> - 149 \<le> k"
proof (cases "x = 0")
  case True
  then have "f32_round x = of_int 0 * 2 powi 0" by (simp add: f32_round_def)
  moreover have "\<bar>0::int\<bar> \<le> 2 ^ 24" "- 149 \<le> (0::int)" by simp_all
  ultimately show ?thesis by blast
next
  case False
  then have x0: "0 < \<bar>x\<bar>" by simp
  define e where "e = flog2 \<bar>x\<bar>"
  note b = flog2_bounds[OF x0, folded e_def]
  define j where "j = max e (- 126) - 23"
  have r: "f32_round x = of_int (rne (x / 2 powi j)) * 2 powi j"
    using False by (simp add: f32_round_def Let_def e_def j_def)
  have "e + 1 \<le> j + 24" by (simp add: j_def)
  then have "(2::rat) powi (e + 1) \<le> 2 powi (j + 24)" by (simp add: two_powi_le_iff)
  also have "\<dots> = 2 ^ 24 * 2 powi j" by (simp add: power_int_add)
  finally have "\<bar>x\<bar> < 2 ^ 24 * 2 powi j" using b(2) by linarith
  then have "\<bar>x / 2 powi j\<bar> < 2 ^ 24" by (simp add: abs_divide pos_divide_less_eq)
  with rne_err[of "x / 2 powi j"] have "\<bar>rat_of_int (rne (x / 2 powi j))\<bar> < 2 ^ 24 + 1"
    by linarith
  then have "rat_of_int \<bar>rne (x / 2 powi j)\<bar> < of_int (2 ^ 24 + 1)" by simp
  then have "\<bar>rne (x / 2 powi j)\<bar> < 2 ^ 24 + 1" by (simp only: of_int_less_iff)
  then have "\<bar>rne (x / 2 powi j)\<bar> \<le> 2 ^ 24" by simp
  moreover have "- 149 \<le> j" by (simp add: j_def)
  ultimately show ?thesis using r by blast
qed

lemma f32_round_idem: "f32_round (f32_round x) = f32_round x"
  using f32_round_form[of x] f32_round_repr by auto

lemma f32_of_long_exact: "\<bar>i\<bar> \<le> 2 ^ 24 \<Longrightarrow> f32_of_long i = of_int i"
  using f32_round_repr[of i 0] by (simp add: f32_of_long_def)

subsection \<open>The constants, evaluated\<close>

lemma CALIBRATION_FACTOR_eq: "CALIBRATION_FACTOR = 7262373 / 2 ^ 30"
  by code_simp

lemma known_counts: "f32_div KNOWN_WEIGHT CALIBRATION_FACTOR = 29570"
  by code_simp

lemma f32_minus_one: "f32_of_long (- 1) = - 1"
  using f32_round_repr[of "- 1" 0] by (simp add: f32_of_long_def)

lemma times_minus_one: "f32_mul (f32_mul a b) (f32_of_long (- 1)) = - f32_mul a b"
  by (simp add: f32_minus_one f32_mul_def f32_round_minus f32_round_idem)

lemma near_lower:
  fixes x y z :: rat
  shows "y - x \<le> z \<Longrightarrow> z * 16777216 \<le> y \<Longrightarrow> 1 \<le> y \<Longrightarrow> 1 / 2 \<le> x"
  by linarith

lemma near_upper:
  fixes x y z :: rat
  shows "x - y \<le> z \<Longrightarrow> z * 16777216 \<le> y \<Longrightarrow> x \<le> y * (1 + 1 / 2 ^ 24)"
  by simp

lemma weight_err:
  "\<bar>f32_mul (f32_of_long d) CALIBRATION_FACTOR - of_int d * CALIBRATION_FACTOR\<bar>
     \<le> \<bar>of_int d\<bar> * CALIBRATION_FACTOR * ((2 ^ 25 + 1) / 2 ^ 48)"
proof (cases "d = 0")
  case True
  then show ?thesis by (simp add: f32_mul_def f32_of_long_def f32_round_def)
next
  case False
  define D :: rat where "D = of_int d"
  define a where "a = f32_round D"
  define c where "c = CALIBRATION_FACTOR"
  have c: "0 < c" by (simp add: c_def CALIBRATION_FACTOR_eq)
  have clow: "(2::rat) powi (- 126) \<le> 1 / 2 * c"
    by (simp add: c_def CALIBRATION_FACTOR_eq power_int_minus field_simps)
  have "1 \<le> \<bar>d\<bar>" using False by simp
  then have "rat_of_int 1 \<le> of_int \<bar>d\<bar>" by (simp only: of_int_le_iff)
  then have D1: "1 \<le> \<bar>D\<bar>" by (simp add: D_def)
  have "(2::rat) powi (- 126) \<le> 1" by (simp add: power_int_minus field_simps)
  then have "(2::rat) powi (- 126) \<le> \<bar>D\<bar>" using D1 by linarith
  from f32_round_err[OF this] have ea: "\<bar>a - D\<bar> \<le> \<bar>D\<bar> / 2 ^ 24" by (simp add: a_def)
  have ea': "\<bar>a - D\<bar> * 16777216 \<le> \<bar>D\<bar>" using ea by simp
  have a1: "1 / 2 \<le> \<bar>a\<bar>"
    by (rule near_lower[OF abs_triangle_ineq2_sym ea' D1])
  have a2: "\<bar>a\<bar> \<le> \<bar>D\<bar> * (1 + 1 / 2 ^ 24)"
    by (rule near_upper[OF abs_triangle_ineq2 ea'])
  have "(2::rat) powi (- 126) \<le> 1 / 2 * c" by (rule clow)
  also have "\<dots> \<le> \<bar>a\<bar> * c" using a1 c by (intro mult_right_mono) auto
  also have "\<dots> = \<bar>a * c\<bar>" using c by (simp add: abs_mult)
  finally have "(2::rat) powi (- 126) \<le> \<bar>a * c\<bar>" .
  from f32_round_err[OF this] have ep: "\<bar>f32_round (a * c) - a * c\<bar> \<le> \<bar>a\<bar> * c / 2 ^ 24"
    using c by (simp add: abs_mult)
  have "\<bar>f32_round (a * c) - D * c\<bar> \<le> \<bar>f32_round (a * c) - a * c\<bar> + \<bar>a - D\<bar> * c"
  proof -
    have "f32_round (a * c) - D * c = (f32_round (a * c) - a * c) + (a - D) * c" by (simp add: algebra_simps)
    moreover have "\<bar>(a - D) * c\<bar> = \<bar>a - D\<bar> * c" using c by (simp add: abs_mult)
    ultimately show ?thesis by (metis abs_triangle_ineq)
  qed
  also have "\<dots> \<le> \<bar>a\<bar> * c / 2 ^ 24 + \<bar>D\<bar> / 2 ^ 24 * c"
    using ep ea c by (intro add_mono mult_right_mono) auto
  also have "\<dots> \<le> \<bar>D\<bar> * (1 + 1 / 2 ^ 24) * c / 2 ^ 24 + \<bar>D\<bar> / 2 ^ 24 * c"
    using a2 c by (intro add_mono divide_right_mono mult_right_mono) auto
  also have "\<dots> = \<bar>D\<bar> * c * ((2 ^ 25 + 1) / 2 ^ 48)" by (simp add: field_simps)
  finally show ?thesis by (simp add: f32_mul_def f32_of_long_def a_def c_def D_def)
qed

section \<open>What the primitive steps change\<close>

lemma elapse_eq:
  "elapse w = (case ticks w of [] \<Rightarrow> None
     | k # ks \<Rightarrow> Some (w\<lparr>clock := clock w + dt k, ticks := ks,
         calibratePressed := calibratePressed w \<or> calIrq k,
         resetPressed := resetPressed w \<or> rstIrq k\<rparr>))"
  by (simp add: elapse_def fire_def onCalibrateButtonPress_def onResetButtonPress_def
      split: list.splits)

lemma elapse_frame:
  assumes "elapse w = Some w'"
  shows "tare w' = tare w" "lastUpdateTime w' = lastUpdateTime w"
    "hx711 w' = hx711 w" "shown w' = shown w"
    "ticks w' = tl (ticks w)" "ticks w \<noteq> []"
    "clock w' = clock w + dt (hd (ticks w))"
    "calibratePressed w' = (calibratePressed w \<or> calIrq (hd (ticks w)))"
    "resetPressed w' = (resetPressed w \<or> rstIrq (hd (ticks w)))"
  using assms by (auto simp: elapse_eq split: list.splits)

lemma scale_read_frame:
  assumes "scale_read w = Some (v, w')"
  shows "tare w' = tare w" "lastUpdateTime w' = lastUpdateTime w"
    "hx711 w' = tl (hx711 w)" "hx711 w \<noteq> []" "v = to_long (hd (hx711 w))"
    "shown w' = shown w"
    "ticks w' = tl (ticks w)" "ticks w \<noteq> []"
    "clock w' = clock w + dt (hd (ticks w))"
    "calibratePressed w' = (calibratePressed w \<or> calIrq (hd (ticks w)))"
    "resetPressed w' = (resetPressed w \<or> rstIrq (hd (ticks w)))"
  using assms
  by (auto simp: scale_read_def elapse_eq split: Option.bind_splits list.splits)

lemma scale_read_total:
  "ticks w \<noteq> [] \<Longrightarrow> hx711 w \<noteq> [] \<Longrightarrow>
     \<exists>w'. scale_read w = Some (to_long (hd (hx711 w)), w')"
  by (cases "ticks w"; cases "hx711 w") (auto simp: scale_read_def elapse_eq)

subsection \<open>The summing loop\<close>

lemma sample_sum_frame:
  "sample_sum n acc w = Some (s, w') \<Longrightarrow>
     tare w' = tare w \<and> lastUpdateTime w' = lastUpdateTime w \<and> shown w' = shown w \<and>
     hx711 w' = drop n (hx711 w) \<and> ticks w' = drop n (ticks w) \<and>
     n \<le> length (hx711 w) \<and> n \<le> length (ticks w) \<and>
     s = foldl long_add acc (map to_long (take n (hx711 w)))"
proof (induction n arbitrary: acc w)
  case 0
  then show ?case by simp
next
  case (Suc n)
  from Suc.prems obtain v w1 where r: "scale_read w = Some (v, w1)"
    and s: "sample_sum n (long_add acc v) w1 = Some (s, w')"
    by (auto split: Option.bind_splits)
  note f = scale_read_frame[OF r]
  from Suc.IH[OF s] f show ?case
    by (cases "hx711 w"; cases "ticks w") (auto simp: drop_Suc)
qed

lemma sample_sum_total:
  "n \<le> length (ticks w) \<Longrightarrow> n \<le> length (hx711 w) \<Longrightarrow> \<exists>r. sample_sum n acc w = Some r"
proof (induction n arbitrary: acc w)
  case 0
  then show ?case by simp
next
  case (Suc n)
  then have ne: "ticks w \<noteq> []" "hx711 w \<noteq> []" by auto
  from scale_read_total[OF ne] obtain w1
    where r: "scale_read w = Some (to_long (hd (hx711 w)), w1)"
    by blast
  note f = scale_read_frame[OF r]
  have "n \<le> length (ticks w1)" "n \<le> length (hx711 w1)"
    using Suc.prems f by (cases "ticks w"; cases "hx711 w"; simp)+
  from Suc.IH[OF this] r show ?case by auto
qed

text \<open>
  Ten samples of at most 24 bits each (signed or unsigned, as the driver delivers them)
  cannot overflow the 32-bit sum.
\<close>

lemma sample_sum_exact:
  assumes "10 \<le> length (ticks w)" and "hx711 w = vs @ rest" and "length vs = 10"
    and "\<forall>v\<in>set vs. - (2 ^ 24) \<le> v \<and> v < 2 ^ 24"
  shows "\<exists>w'. sample_sum TARE_SAMPLES 0 w = Some (sum_list vs, w') \<and>
           long_div (sum_list vs) (int TARE_SAMPLES) = sum_list vs sdiv 10"
proof -
  have "TARE_SAMPLES \<le> length (ticks w)" "TARE_SAMPLES \<le> length (hx711 w)"
    using assms by (simp_all add: TARE_SAMPLES_def)
  from sample_sum_total[OF this, of 0] obtain s w'
    where r: "sample_sum TARE_SAMPLES 0 w = Some (s, w')"
    by fastforce
  from sample_sum_frame[OF r] assms have s: "s = foldl long_add 0 (map to_long vs)"
    by (simp add: TARE_SAMPLES_def)
  have "map to_long vs = vs"
    by (rule map_idI, rule to_long_id) (use assms(4) in auto)
  moreover have "foldl long_add 0 vs = 0 + sum_list vs"
    by (rule foldl_long_add[where B = "2 ^ 24"]) (use assms in \<open>auto simp: abs_le_iff\<close>)
  ultimately have s': "s = sum_list vs" using s by simp
  have "\<bar>sum_list vs\<bar> \<le> 2 ^ 24 * int (length vs)"
    using assms(4) by (induction vs) (auto simp: abs_le_iff algebra_simps)
  moreover have "\<bar>sum_list vs sdiv 10\<bar> \<le> \<bar>sum_list vs\<bar>"
    by (rule sdiv_abs_le)
  ultimately have "\<bar>sum_list vs sdiv 10\<bar> < 2 ^ 31"
    using assms(3) by simp
  then have "long_div (sum_list vs) (int TARE_SAMPLES) = sum_list vs sdiv 10"
    by (simp add: long_div_def TARE_SAMPLES_def to_long_id abs_less_iff)
  with r s' show ?thesis by simp
qed

section \<open>The tare estimator\<close>

text \<open>
  Claim C4, as the code has it. For every ten consecutive raw readings of at most 24 bits
  each, the tare estimator returns and stores the sum of the readings divided by ten in
  \<^verbatim>\<open>long\<close> arithmetic: their arithmetic mean with the fraction discarded (rounded towards
  zero). In particular, when all ten readings are the same value \<open>v\<close>, the new tare is
  exactly \<open>v\<close>.
\<close>

theorem tareScale_truncated_mean:
  assumes "10 \<le> length (ticks w)" and "hx711 w = vs @ rest" and "length vs = 10"
    and "\<forall>v\<in>set vs. - (2 ^ 24) \<le> v \<and> v < 2 ^ 24"
  shows "map_option tare (tareScale w) = Some (sum_list vs sdiv 10) \<and>
         rat_of_int (sum_list vs sdiv 10) =
           (if 0 \<le> sum_list vs then of_int \<lfloor>of_int (sum_list vs) / (10::rat)\<rfloor>
            else of_int \<lceil>of_int (sum_list vs) / (10::rat)\<rceil>) \<and>
         (vs = replicate 10 v \<longrightarrow> map_option tare (tareScale w) = Some v)"
proof -
  from sample_sum_exact[OF assms] obtain w'
    where "sample_sum TARE_SAMPLES 0 w = Some (sum_list vs, w')"
      and "long_div (sum_list vs) (int TARE_SAMPLES) = sum_list vs sdiv 10"
    by blast
  then have t: "map_option tare (tareScale w) = Some (sum_list vs sdiv 10)"
    by (simp add: tareScale_def)
  have c: "map_option tare (tareScale w) = Some v" if "vs = replicate 10 v"
  proof -
    have "sum_list vs sdiv 10 = v"
      unfolding that by (simp add: sum_list_replicate sdiv_ten_times)
    with t show ?thesis by (simp only:)
  qed
  from t c sdiv_trunc[of "sum_list vs"] show ?thesis by blast
qed

theorem tareScale_truncated_mean_witness:
  "10 \<le> length (ticks steady_scale) \<and>
   hx711 steady_scale = replicate 10 16773520 @ [] \<and>
   length (replicate 10 (16773520 :: int)) = 10 \<and>
   - (2 ^ 24) \<le> (16773520 :: int) \<and> (16773520 :: int) < 2 ^ 24 \<and>
   map_option tare (tareScale steady_scale) = Some 16773520"
  using tareScale_truncated_mean [of steady_scale "replicate 10 16773520" "[]" 16773520]
  by (simp add: steady_scale_def Scale_def)

text \<open>
  The claim as the specification words it, with the arithmetic mean itself stored, fails
  whenever the sum is not a multiple of ten: with one count of noise in ten samples the
  mean is \<open>16773520.1\<close>, and the tare stored is \<open>16773520\<close>.
\<close>

theorem tareScale_mean_counterexample:
  "map_option tare (tareScale noisy_scale) = Some 16773520 \<and>
   rat_of_int (sum_list (take 10 (hx711 noisy_scale))) / 10 = 167735201 / 10 \<and>
   rat_of_int (sum_list (take 10 (hx711 noisy_scale))) / 10 \<noteq> rat_of_int 16773520"
  by (simp add: noisy_scale_def Scale_def quiet_def tareScale_def TARE_SAMPLES_def
      numeral_nat scale_read_def elapse_eq to_long_def long_add_def long_div_def
      signed_divide_int_def)

section \<open>The weight computation\<close>

text \<open>The multiplication by \<open>-1\<close> is exact, so the result is the negated product.\<close>

lemma getWeight_eq:
  "getWeight w = map_option
     (\<lambda>(raw, w'). (- f32_mul (f32_of_long (long_sub raw (tare w))) CALIBRATION_FACTOR, w'))
     (scale_read w)"
  by (cases "scale_read w") (auto simp: getWeight_def times_minus_one dest: scale_read_frame(1))

lemma factor_err:
  "\<bar>CALIBRATION_FACTOR - WEIGHT_DIFFERENCE / of_int COUNT_DIFFERENCE\<bar>
     = 481 / (2 ^ 30 * 2957)"
  by (simp add: CALIBRATION_FACTOR_eq WEIGHT_DIFFERENCE_def COUNT_DIFFERENCE_def RAW_0G_def
      RAW_100G_def long_sub_def to_long_def)

lemma ideal_factor: "WEIGHT_DIFFERENCE / of_int COUNT_DIFFERENCE = (20 / 2957 :: rat)"
  by (simp add: WEIGHT_DIFFERENCE_def COUNT_DIFFERENCE_def RAW_0G_def
      RAW_100G_def long_sub_def to_long_def)

lemma weight_err_ideal:
  "\<bar>f32_mul (f32_of_long d) CALIBRATION_FACTOR
      - of_int d * (WEIGHT_DIFFERENCE / of_int COUNT_DIFFERENCE)\<bar>
     \<le> \<bar>of_int d\<bar> * (WEIGHT_DIFFERENCE / of_int COUNT_DIFFERENCE) / 2 ^ 22"
proof -
  define D :: rat where "D = of_int d"
  define v where "v = f32_mul (f32_of_long d) CALIBRATION_FACTOR"
  define c where "c = CALIBRATION_FACTOR"
  define f :: rat where "f = WEIGHT_DIFFERENCE / of_int COUNT_DIFFERENCE"
  have 1: "\<bar>v - D * c\<bar> \<le> \<bar>D\<bar> * c * ((2 ^ 25 + 1) / 2 ^ 48)"
    using weight_err[of d] by (simp add: v_def D_def c_def)
  have "\<bar>D * c - D * f\<bar> = \<bar>D\<bar> * \<bar>c - f\<bar>"
    by (simp add: abs_mult flip: right_diff_distrib)
  then have 2: "\<bar>D * c - D * f\<bar> = \<bar>D\<bar> * (481 / (2 ^ 30 * 2957))"
    using factor_err by (simp add: c_def f_def)
  have "v - D * f = (v - D * c) + (D * c - D * f)" by simp
  then have "\<bar>v - D * f\<bar> \<le> \<bar>v - D * c\<bar> + \<bar>D * c - D * f\<bar>"
    by (metis abs_triangle_ineq)
  also have "\<dots> \<le> \<bar>D\<bar> * c * ((2 ^ 25 + 1) / 2 ^ 48) + \<bar>D\<bar> * (481 / (2 ^ 30 * 2957))"
    using 1 2 by linarith
  also have "\<dots> \<le> \<bar>D\<bar> * f / 2 ^ 22"
    unfolding c_def f_def CALIBRATION_FACTOR_eq ideal_factor by simp
  finally show ?thesis by (simp add: v_def D_def f_def)
qed

text \<open>
  Claim C1. For every raw reading \<open>r\<close> and tare \<open>t\<close> whose difference fits a \<^verbatim>\<open>long\<close>, the
  weight computation returns the binary32 value of
  \<^verbatim>\<open>(float)(r - t) * CALIBRATION_FACTOR * (-1)\<close>. That value is \<open>- (r - t) * factor\<close> up to the
  rounding of the conversion and of the product: the relative error is at most
  \<open>2 powi (-23) + 2 powi (-48)\<close> against the constant as the program holds it, and at most
  \<open>2 powi (-22)\<close> against the exact factor \<open>100 / (16773520 - 16758735)\<close>. At tare 16773520
  and reading 16758735 the result is 100 (the witness evaluates it).
\<close>

theorem getWeight_formula:
  assumes "ticks w \<noteq> []" and "hx711 w = r # rest"
    and "- (2 ^ 31) \<le> r" and "r < 2 ^ 31"
    and "- (2 ^ 31) \<le> r - tare w" and "r - tare w < 2 ^ 31"
  shows "\<exists>v w'. getWeight w = Some (v, w') \<and>
     v = - f32_mul (f32_of_long (r - tare w)) CALIBRATION_FACTOR \<and>
     \<bar>v - (- of_int (r - tare w) * CALIBRATION_FACTOR)\<bar>
        \<le> \<bar>of_int (r - tare w)\<bar> * CALIBRATION_FACTOR * ((2 ^ 25 + 1) / 2 ^ 48) \<and>
     \<bar>v - (- of_int (r - tare w) * (WEIGHT_DIFFERENCE / of_int COUNT_DIFFERENCE))\<bar>
        \<le> \<bar>of_int (r - tare w)\<bar> * (WEIGHT_DIFFERENCE / of_int COUNT_DIFFERENCE) / 2 ^ 22"
proof -
  from scale_read_total[of w] assms obtain w' where r: "scale_read w = Some (to_long r, w')"
    by auto
  have "to_long r = r" "long_sub r (tare w) = r - tare w"
    using assms by (simp_all add: long_sub_def to_long_id)
  with r have g: "getWeight w = Some (- f32_mul (f32_of_long (r - tare w)) CALIBRATION_FACTOR, w')"
    by (simp add: getWeight_eq)
  have a: "\<bar>- x - (- d * c)\<bar> = \<bar>x - d * c\<bar>" for x d c :: rat
    by (simp add: abs_minus_commute)
  show ?thesis
    apply (rule exI [of _ "- f32_mul (f32_of_long (r - tare w)) CALIBRATION_FACTOR"])
    apply (rule exI [of _ w'])
    unfolding a
    using g weight_err[of "r - tare w"] weight_err_ideal[of "r - tare w"]
    by (intro conjI refl)
qed

theorem getWeight_formula_witness:
  "map_option fst (getWeight loaded_100g) = Some 100"
proof -
  have "\<exists>v w'. getWeight loaded_100g = Some (v, w') \<and>
     v = - f32_mul (f32_of_long (16758735 - tare loaded_100g)) CALIBRATION_FACTOR"
    using getWeight_formula [of loaded_100g 16758735 "[]"]
    by (simp add: loaded_100g_def Scale_def)
  moreover have "- f32_mul (f32_of_long (16758735 - tare loaded_100g)) CALIBRATION_FACTOR = 100"
    by code_simp
  ultimately show ?thesis by auto
qed

text \<open>
  Claim C8. The weight computation writes none of the program's variables: \<open>tare\<close>,
  \<open>lastUpdateTime\<close> and the display are as before, and each button flag is as before
  unless its own interrupt handler fired while \<^verbatim>\<open>scale.read()\<close> was blocking. The value
  returned is a function of the raw reading and the tare alone: two calls that read the
  same raw value under the same tare return the same weight, whatever else differs.
\<close>

theorem getWeight_pure:
  assumes "getWeight w = Some (v, w')" and "getWeight u = Some (v2, u')"
    and "hd (hx711 u) = hd (hx711 w)" and "tare u = tare w"
  shows "tare w' = tare w \<and> lastUpdateTime w' = lastUpdateTime w \<and> shown w' = shown w \<and>
     calibratePressed w' = (calibratePressed w \<or> calIrq (hd (ticks w))) \<and>
     resetPressed w' = (resetPressed w \<or> rstIrq (hd (ticks w))) \<and>
     v2 = v"
proof -
  from assms(1) obtain raw where r: "scale_read w = Some (raw, w')"
    and v: "v = - f32_mul (f32_of_long (long_sub raw (tare w))) CALIBRATION_FACTOR"
    by (auto simp: getWeight_eq)
  from assms(2) obtain raw2 where r2: "scale_read u = Some (raw2, u')"
    and v2: "v2 = - f32_mul (f32_of_long (long_sub raw2 (tare u))) CALIBRATION_FACTOR"
    by (auto simp: getWeight_eq)
  note f = scale_read_frame[OF r] and f2 = scale_read_frame[OF r2]
  have "raw2 = raw" using f(5) f2(5) assms(3) by simp
  with v v2 assms(4) have "v2 = v" by simp
  with f show ?thesis by simp
qed

theorem getWeight_pure_witness:
  "map_option fst (getWeight loaded_100g_later) = map_option fst (getWeight loaded_100g) \<and>
   map_option (tare \<circ> snd) (getWeight loaded_100g_later) = Some 16773520 \<and>
   map_option (lastUpdateTime \<circ> snd) (getWeight loaded_100g_later) = Some 41000 \<and>
   map_option (calibratePressed \<circ> snd) (getWeight loaded_100g_later) = Some True \<and>
   map_option (resetPressed \<circ> snd) (getWeight loaded_100g_later) = Some True"
proof -
  obtain v w' where 1: "getWeight loaded_100g_later = Some (v, w')"
    by (cases "getWeight loaded_100g_later")
       (auto simp: getWeight_eq scale_read_def elapse_eq loaded_100g_later_def)
  obtain v2 u' where 2: "getWeight loaded_100g = Some (v2, u')"
    by (cases "getWeight loaded_100g")
       (auto simp: getWeight_eq scale_read_def elapse_eq loaded_100g_def Scale_def)
  have 3: "hd (hx711 loaded_100g) = hd (hx711 loaded_100g_later)"
    "tare loaded_100g = tare loaded_100g_later"
    by (simp_all add: loaded_100g_def loaded_100g_later_def Scale_def)
  have 4: "tare loaded_100g_later = 16773520" "lastUpdateTime loaded_100g_later = 41000"
    "calibratePressed loaded_100g_later" "rstIrq (hd (ticks loaded_100g_later))"
    by (simp_all add: loaded_100g_later_def)
  from getWeight_pure [OF 1 2 3] show ?thesis
    unfolding 1 2 by (simp add: 4)
qed

section \<open>What each method changes\<close>

subsection \<open>Display calls, and code that writes no flag\<close>

lemma display_fields [simp]:
  "tare (display c w) = tare w" "lastUpdateTime (display c w) = lastUpdateTime w"
  "calibratePressed (display c w) = calibratePressed w"
  "resetPressed (display c w) = resetPressed w"
  "clock (display c w) = clock w" "ticks (display c w) = ticks w"
  "hx711 (display c w) = hx711 w" "shown (display c w) = shown w @ [(clock w, c)]"
  by (simp_all add: display_def)

lemma millis_display [simp]: "millis (display c w) = millis w"
  by (simp add: millis_def)

lemma actions_display [simp]: "actions (display c w) = actions w @ action_of c"
  by (simp add: actions_def)

lemma actions_cong: "shown w' = shown w \<Longrightarrow> actions w' = actions w"
  by (simp add: actions_def)

lemma refresh_times_cong: "shown w' = shown w \<Longrightarrow> refresh_times w' = refresh_times w"
  by (simp add: refresh_times_def)

lemma consumed_eq: "ticks w = ks @ ticks w' \<Longrightarrow> consumed w w' = ks"
  by (simp add: consumed_def)

lemma no_writeI:
  assumes "ticks w = ks @ ticks w'" and "lastUpdateTime w' = lastUpdateTime w"
    and "calibratePressed w' = (calibratePressed w \<or> list_ex calIrq ks)"
    and "resetPressed w' = (resetPressed w \<or> list_ex rstIrq ks)"
  shows "no_write w w'"
  using assms by (simp add: no_write_def consumed_eq)

lemma no_write_same:
  assumes "ticks w' = ticks w" and "lastUpdateTime w' = lastUpdateTime w"
    and "calibratePressed w' = calibratePressed w" and "resetPressed w' = resetPressed w"
  shows "no_write w w'"
  by (rule no_writeI[where ks = "[]"]) (use assms in simp_all)

lemma no_write_refl [simp]: "no_write w w"
  by (rule no_write_same) simp_all

lemma no_write_display [simp]: "no_write w (display c w)"
  by (rule no_write_same) simp_all

lemma no_write_trans:
  assumes "no_write w w'" and "no_write w' w''"
  shows "no_write w w''"
proof -
  let ?a = "consumed w w'" and ?b = "consumed w' w''"
  from assms have "ticks w = (?a @ ?b) @ ticks w''" by (simp add: no_write_def)
  then show ?thesis
    by (rule no_writeI) (use assms in \<open>auto simp: no_write_def\<close>)
qed

lemma no_write_tare [simp]: "no_write w (u\<lparr>tare := t\<rparr>) = no_write w u"
  and no_write_tare' [simp]: "no_write (w\<lparr>tare := t\<rparr>) u = no_write w u"
  by (simp_all add: no_write_def consumed_def)

lemma no_write_display_r [simp]: "no_write w (display c u) = no_write w u"
  and no_write_display_l [simp]: "no_write (display c w) u = no_write w u"
  by (simp_all add: no_write_def consumed_def)

lemma no_write_sticky:
  "no_write w w' \<Longrightarrow> resetPressed w \<Longrightarrow> resetPressed w'"
  "no_write w w' \<Longrightarrow> calibratePressed w \<Longrightarrow> calibratePressed w'"
  by (simp_all add: no_write_def)

lemma elapse_no_write: "elapse w = Some w' \<Longrightarrow> no_write w w'"
  by (rule no_writeI[where ks = "[hd (ticks w)]"])
     (auto simp: elapse_eq split: list.splits)

lemma delay_frame:
  assumes "delay ms w = Some w'"
  shows "tare w' = tare w" "hx711 w' = hx711 w" "shown w' = shown w" "no_write w w'"
    "ticks w' = tl (ticks w)" "ticks w \<noteq> []" "clock w' = clock w + dt (hd (ticks w)) + ms"
proof -
  from assms obtain u where e: "elapse w = Some u" and w': "w' = u\<lparr>clock := clock u + ms\<rparr>"
    by (auto simp: delay_def split: Option.bind_splits)
  note f = elapse_frame[OF e]
  show "tare w' = tare w" "hx711 w' = hx711 w" "shown w' = shown w"
    "ticks w' = tl (ticks w)" "ticks w \<noteq> []" "clock w' = clock w + dt (hd (ticks w)) + ms"
    using f by (simp_all add: w')
  have "no_write u w'" by (rule no_write_same) (simp_all add: w')
  with elapse_no_write[OF e] show "no_write w w'" by (rule no_write_trans)
qed

lemma delay_total: "ticks w \<noteq> [] \<Longrightarrow> \<exists>w'. delay ms w = Some w'"
  by (cases "ticks w") (auto simp: delay_def elapse_eq)

lemma scale_read_no_write: "scale_read w = Some (v, w') \<Longrightarrow> no_write w w'"
proof -
  assume a: "scale_read w = Some (v, w')"
  then obtain u where e: "elapse w = Some u" and "ticks w' = ticks u"
    "lastUpdateTime w' = lastUpdateTime u" "calibratePressed w' = calibratePressed u"
    "resetPressed w' = resetPressed u"
    by (auto simp: scale_read_def split: Option.bind_splits list.splits)
  then have "no_write u w'" by (intro no_write_same)
  with elapse_no_write[OF e] show ?thesis by (rule no_write_trans)
qed

lemma sample_sum_no_write: "sample_sum n acc w = Some (s, w') \<Longrightarrow> no_write w w'"
proof (induction n arbitrary: acc w)
  case 0
  then show ?case by simp
next
  case (Suc n)
  from Suc.prems obtain v w1 where r: "scale_read w = Some (v, w1)"
    and s: "sample_sum n (long_add acc v) w1 = Some (s, w')"
    by (auto split: Option.bind_splits)
  from scale_read_no_write[OF r] Suc.IH[OF s] show ?case by (rule no_write_trans)
qed

lemma tareScale_frame:
  assumes "tareScale w = Some w'"
  shows "shown w' = shown w" "no_write w w'" "hx711 w' = drop 10 (hx711 w)"
    "ticks w' = drop 10 (ticks w)" "10 \<le> length (hx711 w)" "10 \<le> length (ticks w)"
    "tare w' = long_div (foldl long_add 0 (map to_long (take 10 (hx711 w)))) 10"
proof -
  from assms obtain s u where r: "sample_sum TARE_SAMPLES 0 w = Some (s, u)"
    and w': "w' = u\<lparr>tare := long_div s (int TARE_SAMPLES)\<rparr>"
    by (auto simp: tareScale_def split: Option.bind_splits)
  from sample_sum_frame[OF r] sample_sum_no_write[OF r]
  show "shown w' = shown w" "no_write w w'" "hx711 w' = drop 10 (hx711 w)"
    "ticks w' = drop 10 (ticks w)" "10 \<le> length (hx711 w)" "10 \<le> length (ticks w)"
    "tare w' = long_div (foldl long_add 0 (map to_long (take 10 (hx711 w)))) 10"
    by (simp_all add: w' TARE_SAMPLES_def)
qed

lemma tareScale_total:
  "10 \<le> length (ticks w) \<Longrightarrow> 10 \<le> length (hx711 w) \<Longrightarrow> \<exists>w'. tareScale w = Some w'"
  using sample_sum_total[of TARE_SAMPLES w 0]
  by (auto simp: tareScale_def TARE_SAMPLES_def)

lemma resetScale_frame:
  assumes "resetScale w = Some w'"
  shows "actions w' = actions w @ [Reset]" "no_write w w'" "hx711 w' = drop 10 (hx711 w)"
    "ticks w' = drop 12 (ticks w)" "10 \<le> length (hx711 w)" "12 \<le> length (ticks w)"
    "tare w' = long_div (foldl long_add 0 (map to_long (take 10 (hx711 w)))) 10"
    "refresh_times w' = refresh_times w"
proof -
  define a where "a = (display (LcdPrint ''Resetting...'') (display (LcdSetCursor 0 0)
     (display TmClearDisplay (display LcdClear w))))\<lparr>tare := 0\<rparr>"
  from assms obtain w1 w2 where d1: "delay 2000 a = Some w1"
    and d2: "delay 2000 (display (LcdPrint ''Reset Done'') (display (LcdSetCursor 0 0)
               (display LcdClear w1))) = Some w2"
    and t: "tareScale (display LcdClear w2) = Some w'"
    by (auto simp: resetScale_def a_def Let_def split: Option.bind_splits)
  note f1 = delay_frame[OF d1] and f2 = delay_frame[OF d2] and f3 = tareScale_frame[OF t]
  have a: "actions a = actions w @ [Reset]" "no_write w a" "ticks a = ticks w" "hx711 a = hx711 w"
    "refresh_times a = refresh_times w"
    by (simp_all add: a_def actions_def refresh_times_def)
  show "actions w' = actions w @ [Reset]"
    using f1(3) f2(3) f3(1) a(1) by (simp add: actions_def)
  show "refresh_times w' = refresh_times w"
    using f1(3) f2(3) f3(1) a(5) by (simp add: refresh_times_def)
  have "no_write a w1" by (rule f1)
  moreover have "no_write w1 w2" using f2(4) by simp
  moreover have "no_write w2 w'" using f3(2) by simp
  ultimately show "no_write w w'" using a(2) by (meson no_write_trans)
  show "hx711 w' = drop 10 (hx711 w)" using f1 f2 f3 a by simp
  show "10 \<le> length (hx711 w)" using f1 f2 f3 a by simp
  show "tare w' = long_div (foldl long_add 0 (map to_long (take 10 (hx711 w)))) 10"
    using f1 f2 f3 a by simp
  have "ticks w' = drop 10 (tl (tl (ticks w)))" using f1 f2 f3 a by simp
  moreover have "ticks w \<noteq> []" "tl (ticks w) \<noteq> []" using f1 f2 a by simp_all
  ultimately show "ticks w' = drop 12 (ticks w)" "12 \<le> length (ticks w)"
    using f3(6) f1(5) f2(5) a(3)
    by (cases "ticks w"; cases "tl (ticks w)"; simp add: drop_Suc)+
qed

lemma resetScale_total:
  assumes "12 \<le> length (ticks w)" and "10 \<le> length (hx711 w)"
  shows "\<exists>w'. resetScale w = Some w'"
proof -
  define a where "a = (display (LcdPrint ''Resetting...'') (display (LcdSetCursor 0 0)
     (display TmClearDisplay (display LcdClear w))))\<lparr>tare := 0\<rparr>"
  have "ticks a \<noteq> []" using assms by (auto simp: a_def)
  from delay_total[OF this] obtain w1 where d1: "delay 2000 a = Some w1" by blast
  define b where "b = display (LcdPrint ''Reset Done'') (display (LcdSetCursor 0 0)
               (display LcdClear w1))"
  have "ticks b \<noteq> []" using assms delay_frame[OF d1] by (cases "ticks w") (auto simp: a_def b_def)
  from delay_total[OF this] obtain w2 where d2: "delay 2000 b = Some w2" by blast
  have "10 \<le> length (ticks (display LcdClear w2))" "10 \<le> length (hx711 (display LcdClear w2))"
    using assms delay_frame[OF d1] delay_frame[OF d2] by (simp_all add: a_def b_def)
  from tareScale_total[OF this] obtain w' where "tareScale (display LcdClear w2) = Some w'" by blast
  with d1 d2 show ?thesis by (simp add: resetScale_def a_def b_def)
qed

subsection \<open>The display refresh and the busy-wait\<close>

lemma getWeight_frame:
  assumes "getWeight w = Some (v, w')"
  shows "tare w' = tare w" "shown w' = shown w" "no_write w w'"
    "hx711 w' = tl (hx711 w)" "hx711 w \<noteq> []" "ticks w' = tl (ticks w)" "ticks w \<noteq> []"
    "clock w' = clock w + dt (hd (ticks w))"
proof -
  from assms obtain raw where r: "scale_read w = Some (raw, w')"
    by (auto simp: getWeight_eq)
  from scale_read_frame[OF r] scale_read_no_write[OF r]
  show "tare w' = tare w" "shown w' = shown w" "no_write w w'"
    "hx711 w' = tl (hx711 w)" "hx711 w \<noteq> []" "ticks w' = tl (ticks w)" "ticks w \<noteq> []"
    "clock w' = clock w + dt (hd (ticks w))"
    by simp_all
qed

lemma updateDisplay_frame:
  assumes "updateDisplay w = Some w'"
  shows "actions w' = actions w @ [Refresh]" "no_write w w'" "tare w' = tare w"
    "refresh_times w' = refresh_times w @ [clock w + dt (hd (ticks w))]"
    "ticks w' = tl (tl (ticks w))" "hx711 w' = tl (tl (hx711 w))"
proof -
  from assms obtain v w1 c w2 where g: "getWeight w = Some (v, w1)"
    and r: "scale_read (display (LcdPrint ''Count: '') (display (LcdSetCursor 0 1)
       (display (LcdPrint '' KG'') (display (LcdPrintFloat v 2) (display (LcdPrint ''Weight: '')
       (display (LcdSetCursor 0 0) (display (TmDisplayFloat v) w1))))))) = Some (c, w2)"
    and w': "w' = display (LcdPrintLong c) w2"
    by (auto simp: updateDisplay_def Let_def split: Option.bind_splits)
  note f = getWeight_frame[OF g] and h = scale_read_frame[OF r] and n = scale_read_no_write[OF r]
  show "actions w' = actions w @ [Refresh]"
    using f(2) h(6) by (simp add: w' actions_def)
  show "refresh_times w' = refresh_times w @ [clock w + dt (hd (ticks w))]"
    using f(2,8) h(6) by (simp add: w' refresh_times_def)
  show "tare w' = tare w" using f h by (simp add: w')
  show "ticks w' = tl (tl (ticks w))" "hx711 w' = tl (tl (hx711 w))" using f h by (simp_all add: w')
  have "no_write w1 w2" using n by simp
  with f(3) have "no_write w w2" by (rule no_write_trans)
  then show "no_write w w'" by (simp add: w')
qed

lemma updateDisplay_total:
  assumes "2 \<le> length (ticks w)" and "2 \<le> length (hx711 w)"
  shows "\<exists>w'. updateDisplay w = Some w'"
proof -
  have "ticks w \<noteq> []" "hx711 w \<noteq> []" using assms by auto
  from scale_read_total[OF this] obtain w1 where "scale_read w = Some (to_long (hd (hx711 w)), w1)"
    by blast
  then obtain v where g: "getWeight w = Some (v, w1)" by (simp add: getWeight_eq)
  note f = getWeight_frame[OF g]
  define a where "a = display (LcdPrint ''Count: '') (display (LcdSetCursor 0 1)
       (display (LcdPrint '' KG'') (display (LcdPrintFloat v 2) (display (LcdPrint ''Weight: '')
       (display (LcdSetCursor 0 0) (display (TmDisplayFloat v) w1))))))"
  have "ticks a = tl (ticks w)" "hx711 a = tl (hx711 w)"
    using f by (simp_all add: a_def)
  then have "1 \<le> length (ticks a)" "1 \<le> length (hx711 a)"
    using assms by simp_all
  then have "ticks a \<noteq> []" "hx711 a \<noteq> []" by auto
  from scale_read_total[OF this] obtain w2 where "scale_read a = Some (to_long (hd (hx711 a)), w2)"
    by blast
  with g show ?thesis by (simp add: updateDisplay_def a_def)
qed

lemma wait_frame:
  "wait_for_reset s w = Some r \<Longrightarrow>
     tare (outcome r) = tare w \<and> hx711 (outcome r) = hx711 w \<and>
     shown (outcome r) = shown w \<and> no_write w (outcome r) \<and>
     (aborted r \<longrightarrow> resetPressed (outcome r))"
proof (induction s w rule: wait_for_reset.induct)
  case (1 s w)
  from "1.prems" obtain w' where e: "elapse w = Some w'"
    by (auto simp: wait_for_reset.simps[of s w] split: option.splits)
  note f = elapse_frame[OF e] and n = elapse_no_write[OF e]
  show ?case
  proof (cases "ulong_sub (millis w') s < 5000 \<and> \<not> resetPressed w'")
    case True
    with "1.prems" e have "wait_for_reset s w' = Some r"
      by (simp add: wait_for_reset.simps[of s w])
    from "1.IH"[OF e _ _ this] True
    have ih: "tare (outcome r) = tare w'" "hx711 (outcome r) = hx711 w'"
      "shown (outcome r) = shown w'" "no_write w' (outcome r)"
      "aborted r \<longrightarrow> resetPressed (outcome r)"
      by simp_all
    from no_write_trans[OF n ih(4)] ih f show ?thesis by simp
  next
    case False
    with "1.prems" e have "r = Aborted w' \<and> resetPressed w' \<or> r = Expired w'"
      by (auto simp: wait_for_reset.simps[of s w] split: if_splits)
    then show ?thesis
    proof
      assume "r = Aborted w' \<and> resetPressed w'"
      with f n show ?thesis by simp
    next
      assume "r = Expired w'"
      with f n show ?thesis by simp
    qed
  qed
qed

lemma ulong_sub_millis:
  "ulong_sub ((c + e) mod 2 ^ 32) (c mod 2 ^ 32) = e mod 2 ^ 32"
proof -
  have "(int ((c + e) mod 2 ^ 32) - int (c mod 2 ^ 32)) mod 2 ^ 32
      = (int (c + e) - int c) mod 2 ^ 32"
    by (simp add: zmod_int mod_diff_eq)
  also have "\<dots> = int (e mod 2 ^ 32)" by (simp add: zmod_int)
  finally show ?thesis by (simp add: ulong_sub_def to_ulong_def)
qed

text \<open>
  A reset flag that is set, or becomes set, while the busy-wait is still inside its five
  seconds is seen by the next test, and the wait is left at once.
\<close>

lemma wait_aborts:
  assumes "n < length (ticks w)"
    and "clock w = c + e"
    and "e + sum_list (map dt (take (Suc n) (ticks w))) < 5000"
    and "resetPressed w \<or> list_ex rstIrq (take (Suc n) (ticks w))"
  shows "\<exists>u. wait_for_reset (c mod 2 ^ 32) w = Some (Aborted u) \<and>
           length (ticks w) \<le> length (ticks u) + Suc n"
  using assms
proof (induction n arbitrary: w e)
  case 0
  then obtain k ks where t: "ticks w = k # ks" by (cases "ticks w") auto
  then obtain w' where e: "elapse w = Some w'" by (simp add: elapse_eq)
  note f = elapse_frame[OF e]
  have c': "clock w' = c + (e + dt k)" using f t "0.prems" by simp
  have "ulong_sub (millis w') (c mod 2 ^ 32) = (e + dt k) mod 2 ^ 32"
    unfolding millis_def c' by (rule ulong_sub_millis)
  moreover have "e + dt k < 5000" using "0.prems" t by simp
  ultimately have "ulong_sub (millis w') (c mod 2 ^ 32) < 5000" by simp
  moreover have "resetPressed w'" using f t "0.prems" by auto
  ultimately have "wait_for_reset (c mod 2 ^ 32) w = Some (Aborted w')"
    using e by (simp add: wait_for_reset.simps[of _ w])
  moreover have "length (ticks w) \<le> length (ticks w') + Suc 0" using f t by simp
  ultimately show ?case by blast
next
  case (Suc n)
  then obtain k ks where t: "ticks w = k # ks" by (cases "ticks w") auto
  then obtain w' where e: "elapse w = Some w'" by (simp add: elapse_eq)
  note f = elapse_frame[OF e]
  have c': "clock w' = c + (e + dt k)" using f t Suc.prems by simp
  have "ulong_sub (millis w') (c mod 2 ^ 32) = (e + dt k) mod 2 ^ 32"
    unfolding millis_def c' by (rule ulong_sub_millis)
  moreover have "e + dt k < 5000" using Suc.prems t by simp
  ultimately have lt: "ulong_sub (millis w') (c mod 2 ^ 32) < 5000" by simp
  have len: "length (ticks w) = Suc (length (ticks w'))" using f t by simp
  show ?case
  proof (cases "resetPressed w'")
    case True
    with lt e have "wait_for_reset (c mod 2 ^ 32) w = Some (Aborted w')"
      by (simp add: wait_for_reset.simps[of _ w])
    with len show ?thesis by simp
  next
    case False
    have "n < length (ticks w')" using f t Suc.prems by simp
    moreover have "(e + dt k) + sum_list (map dt (take (Suc n) (ticks w'))) < 5000"
      using f t Suc.prems by simp
    moreover have "resetPressed w' \<or> list_ex rstIrq (take (Suc n) (ticks w'))"
      using f t Suc.prems False by auto
    ultimately obtain u where "wait_for_reset (c mod 2 ^ 32) w' = Some (Aborted u)"
      "length (ticks w') \<le> length (ticks u) + Suc n"
      using c' Suc.IH[of w' "e + dt k"] by blast
    with lt e False len show ?thesis by (simp add: wait_for_reset.simps[of _ w])
  qed
qed

text \<open>
  The busy-wait comes to an end when the environment lets the five seconds pass: it is left
  through the reset when a turn inside the five seconds finds the flag set, and otherwise
  by the first turn that finds the time over, whatever the reset flag is by then.
\<close>

lemma wait_total:
  assumes "n < length (ticks w)"
    and "clock w = c + e"
    and "5000 \<le> e + sum_list (map dt (take (Suc n) (ticks w)))"
    and "e + sum_list (map dt (take (Suc n) (ticks w))) < 2 ^ 32"
  shows "\<exists>r. wait_for_reset (c mod 2 ^ 32) w = Some r \<and>
           length (ticks w) \<le> length (ticks (outcome r)) + Suc n"
  using assms
proof (induction n arbitrary: w e)
  case 0
  then obtain k ks where t: "ticks w = k # ks" by (cases "ticks w") auto
  then obtain w' where e: "elapse w = Some w'" by (simp add: elapse_eq)
  note f = elapse_frame[OF e]
  have c': "clock w' = c + (e + dt k)" using f t "0.prems" by simp
  have "ulong_sub (millis w') (c mod 2 ^ 32) = (e + dt k) mod 2 ^ 32"
    unfolding millis_def c' by (rule ulong_sub_millis)
  moreover have "5000 \<le> e + dt k" "e + dt k < 2 ^ 32" using "0.prems" t by simp_all
  ultimately have "\<not> ulong_sub (millis w') (c mod 2 ^ 32) < 5000" by simp
  then have "wait_for_reset (c mod 2 ^ 32) w = Some (Expired w')"
    using e by (simp add: wait_for_reset.simps[of _ w])
  moreover have "length (ticks w) \<le> length (ticks w') + Suc 0" using f t by simp
  ultimately show ?case by simp
next
  case (Suc n)
  then obtain k ks where t: "ticks w = k # ks" by (cases "ticks w") auto
  then obtain w' where e: "elapse w = Some w'" by (simp add: elapse_eq)
  note f = elapse_frame[OF e]
  have c': "clock w' = c + (e + dt k)" using f t Suc.prems by simp
  have u: "ulong_sub (millis w') (c mod 2 ^ 32) = (e + dt k) mod 2 ^ 32"
    unfolding millis_def c' by (rule ulong_sub_millis)
  have len: "length (ticks w) = Suc (length (ticks w'))" using f t by simp
  have small: "e + dt k < 2 ^ 32" using Suc.prems t by simp
  show ?case
  proof (cases "e + dt k < 5000")
    case False
    with u small have "\<not> ulong_sub (millis w') (c mod 2 ^ 32) < 5000" by simp
    then have "wait_for_reset (c mod 2 ^ 32) w = Some (Expired w')"
      using e by (simp add: wait_for_reset.simps[of _ w])
    with len show ?thesis by simp
  next
    case True
    with u have lt: "ulong_sub (millis w') (c mod 2 ^ 32) < 5000" by simp
    show ?thesis
    proof (cases "resetPressed w'")
      case True
      with lt e have "wait_for_reset (c mod 2 ^ 32) w = Some (Aborted w')"
        by (simp add: wait_for_reset.simps[of _ w])
      with len show ?thesis by simp
    next
      case False
      have "n < length (ticks w')" using f t Suc.prems by simp
      moreover have "5000 \<le> (e + dt k) + sum_list (map dt (take (Suc n) (ticks w')))"
        "(e + dt k) + sum_list (map dt (take (Suc n) (ticks w'))) < 2 ^ 32"
        using f t Suc.prems by simp_all
      ultimately obtain r where "wait_for_reset (c mod 2 ^ 32) w' = Some r"
        "length (ticks w') \<le> length (ticks (outcome r)) + Suc n"
        using c' Suc.IH[of w' "e + dt k"] by blast
      with lt e False len show ?thesis by (simp add: wait_for_reset.simps[of _ w])
    qed
  qed
qed

lemma wait_expires:
  assumes "n < length (ticks w)"
    and "clock w = c + e"
    and "e + sum_list (map dt (take n (ticks w))) < 5000"
    and "5000 \<le> e + sum_list (map dt (take (Suc n) (ticks w)))"
    and "e + sum_list (map dt (take (Suc n) (ticks w))) < 2 ^ 32"
    and "\<not> resetPressed w" and "\<not> list_ex rstIrq (take n (ticks w))"
  shows "\<exists>u. wait_for_reset (c mod 2 ^ 32) w = Some (Expired u) \<and>
           ticks u = drop (Suc n) (ticks w)"
  using assms
proof (induction n arbitrary: w e)
  case 0
  then obtain k ks where t: "ticks w = k # ks" by (cases "ticks w") auto
  then obtain w' where e: "elapse w = Some w'" by (simp add: elapse_eq)
  note f = elapse_frame[OF e]
  have c': "clock w' = c + (e + dt k)" using f t "0.prems" by simp
  have "ulong_sub (millis w') (c mod 2 ^ 32) = (e + dt k) mod 2 ^ 32"
    unfolding millis_def c' by (rule ulong_sub_millis)
  moreover have "5000 \<le> e + dt k" "e + dt k < 2 ^ 32" using "0.prems" t by simp_all
  ultimately have "\<not> ulong_sub (millis w') (c mod 2 ^ 32) < 5000" by simp
  then have "wait_for_reset (c mod 2 ^ 32) w = Some (Expired w')"
    using e by (simp add: wait_for_reset.simps[of _ w])
  moreover have "ticks w' = drop (Suc 0) (ticks w)" using f t by simp
  ultimately show ?case by simp
next
  case (Suc n)
  then obtain k ks where t: "ticks w = k # ks" by (cases "ticks w") auto
  then obtain w' where e: "elapse w = Some w'" by (simp add: elapse_eq)
  note f = elapse_frame[OF e]
  have c': "clock w' = c + (e + dt k)" using f t Suc.prems by simp
  have u: "ulong_sub (millis w') (c mod 2 ^ 32) = (e + dt k) mod 2 ^ 32"
    unfolding millis_def c' by (rule ulong_sub_millis)
  have "e + dt k \<le> e + sum_list (map dt (take (Suc n) (ticks w)))" using t by simp
  with Suc.prems(3) have "e + dt k < 5000" by linarith
  with u have lt: "ulong_sub (millis w') (c mod 2 ^ 32) < 5000" by simp
  have nr: "\<not> resetPressed w'" using f t Suc.prems by simp
  have "n < length (ticks w')" using f t Suc.prems by simp
  moreover have "(e + dt k) + sum_list (map dt (take n (ticks w'))) < 5000"
    "5000 \<le> (e + dt k) + sum_list (map dt (take (Suc n) (ticks w')))"
    "(e + dt k) + sum_list (map dt (take (Suc n) (ticks w'))) < 2 ^ 32"
    "\<not> list_ex rstIrq (take n (ticks w'))"
    using f t Suc.prems by simp_all
  ultimately obtain r where "wait_for_reset (c mod 2 ^ 32) w' = Some (Expired r)"
    "ticks r = drop (Suc n) (ticks w')"
    using c' nr Suc.IH[of w' "e + dt k"] by blast
  with lt e nr f t show ?case by (simp add: wait_for_reset.simps[of _ w])
qed

lemma wait_ends_result:
  assumes "n < length (ticks w)" and "wait_ends n w"
  shows "\<exists>r. wait_for_reset (millis w) w = Some r \<and>
           length (ticks w) \<le> length (ticks (outcome r)) + Suc n"
proof -
  let ?e = "sum_list (map dt (take (Suc n) (ticks w)))"
  from assms(2) consider
      (seen) "?e < 5000" "resetPressed w \<or> list_ex rstIrq (take (Suc n) (ticks w))"
    | (over) "5000 \<le> ?e" "?e < 2 ^ 32"
    by (auto simp: wait_ends_def Let_def)
  then show ?thesis
  proof cases
    case seen
    have "\<exists>u. wait_for_reset (clock w mod 2 ^ 32) w = Some (Aborted u) \<and>
           length (ticks w) \<le> length (ticks u) + Suc n"
      by (rule wait_aborts[where e = 0]) (use assms(1) seen in simp_all)
    then obtain u where "wait_for_reset (millis w) w = Some (Aborted u)"
      "length (ticks w) \<le> length (ticks u) + Suc n"
      by (auto simp: millis_def)
    then show ?thesis by simp
  next
    case over
    have "\<exists>r. wait_for_reset (clock w mod 2 ^ 32) w = Some r \<and>
           length (ticks w) \<le> length (ticks (outcome r)) + Suc n"
      by (rule wait_total[where e = 0]) (use assms(1) over in simp_all)
    then show ?thesis by (simp add: millis_def)
  qed
qed

subsection \<open>The calibration action and the control loop\<close>

lemma loop_stages:
  "loop w = do {
     w1 \<leftarrow> elapse w;
     w2 \<leftarrow> calibrate_if_pressed w1;
     w3 \<leftarrow> elapse w2;
     reset_or_refresh (millis w1) w3 }"
  by (simp add: loop_def calibrate_if_pressed_def reset_or_refresh_def Let_def)

lemma calibrateScale_cases:
  assumes "calibrateScale w = Some w'"
  obtains (abort) wa wr where
      "wait_for_reset (millis w) (prompted w) = Some (Aborted wa)"
      "resetScale wa = Some wr" "w' = wr\<lparr>resetPressed := False\<rparr>"
  | (complete) we s u d where
      "wait_for_reset (millis w) (prompted w) = Some (Expired we)"
      "sample_sum TARE_SAMPLES 0 we = Some (s, u)"
      "delay 2000 (display (LcdPrint ''Calibration Done'') (display (LcdSetCursor 0 0)
         (display LcdClear (display TmClearDisplay
           (u\<lparr>tare := long_of_f32 (f32_sub (f32_of_long (long_div s (int TARE_SAMPLES)))
                  (f32_div KNOWN_WEIGHT CALIBRATION_FACTOR))\<rparr>))))) = Some d"
      "w' = display LcdClear d"
proof -
  have alt: "calibrateScale w = do {
     r \<leftarrow> wait_for_reset (millis w) (prompted w);
     case r of
       Aborted w \<Rightarrow> do { w \<leftarrow> resetScale w; Some (w\<lparr>resetPressed := False\<rparr>) }
     | Expired w \<Rightarrow> do {
         (acc, w) \<leftarrow> sample_sum TARE_SAMPLES 0 w;
         w \<leftarrow> delay 2000 (display (LcdPrint ''Calibration Done'') (display (LcdSetCursor 0 0)
           (display LcdClear (display TmClearDisplay
             (w\<lparr>tare := long_of_f32 (f32_sub (f32_of_long (long_div acc (int TARE_SAMPLES)))
                  (f32_div KNOWN_WEIGHT CALIBRATION_FACTOR))\<rparr>)))));
         Some (display LcdClear w) } }"
    by (simp add: calibrateScale_def prompted_def Let_def)
  from assms obtain r where r: "wait_for_reset (millis w) (prompted w) = Some r"
    unfolding alt by (auto split: Option.bind_splits)
  show thesis
  proof (cases r)
    case (Aborted wa)
    with assms r obtain wr where "resetScale wa = Some wr" "w' = wr\<lparr>resetPressed := False\<rparr>"
      unfolding alt by (auto split: Option.bind_splits)
    with r Aborted show ?thesis by (intro abort) simp_all
  next
    case (Expired we)
    with assms r obtain s u d where "sample_sum TARE_SAMPLES 0 we = Some (s, u)"
      "delay 2000 (display (LcdPrint ''Calibration Done'') (display (LcdSetCursor 0 0)
         (display LcdClear (display TmClearDisplay
           (u\<lparr>tare := long_of_f32 (f32_sub (f32_of_long (long_div s (int TARE_SAMPLES)))
                  (f32_div KNOWN_WEIGHT CALIBRATION_FACTOR))\<rparr>))))) = Some d"
      "w' = display LcdClear d"
      unfolding alt by (auto split: Option.bind_splits)
    with r Expired show ?thesis by (intro complete) simp_all
  qed
qed

lemma prompted_fields [simp]:
  "tare (prompted w) = tare w" "lastUpdateTime (prompted w) = lastUpdateTime w"
  "calibratePressed (prompted w) = calibratePressed w"
  "resetPressed (prompted w) = resetPressed w"
  "clock (prompted w) = clock w" "ticks (prompted w) = ticks w"
  "hx711 (prompted w) = hx711 w" "actions (prompted w) = actions w @ [Calibrate]"
  "refresh_times (prompted w) = refresh_times w"
  "no_write w' (prompted w) = no_write w' w" "no_write (prompted w) w' = no_write w w'"
  by (simp_all add: prompted_def refresh_times_def)

text \<open>
  The two ways through \<^verbatim>\<open>calibrateScale()\<close>: left through the reset action, with the reset
  flag cleared on return, or run to its end, with no flag written at all.
\<close>

lemma calibrateScale_frame:
  assumes "calibrateScale w = Some w'"
  shows "(\<exists>wa wr. wait_for_reset (millis w) (prompted w) = Some (Aborted wa) \<and>
            resetScale wa = Some wr \<and> w' = wr\<lparr>resetPressed := False\<rparr> \<and>
            no_write w wr \<and> resetPressed wr \<and> hx711 wa = hx711 w \<and>
            actions wr = actions w @ [Calibrate, Reset] \<and>
            refresh_times wr = refresh_times w) \<or>
         (no_write w w' \<and> actions w' = actions w @ [Calibrate, Calibrated] \<and>
            refresh_times w' = refresh_times w)"
  using assms
proof (cases rule: calibrateScale_cases)
  case (abort wa wr)
  from wait_frame[OF abort(1)] have a: "no_write w wa" "resetPressed wa"
    "shown wa = shown (prompted w)" "hx711 wa = hx711 w"
    by simp_all
  note r = resetScale_frame[OF abort(2)]
  have "no_write w wr" using a(1) r(2) by (rule no_write_trans)
  moreover have "resetPressed wr" using r(2) a(2) by (rule no_write_sticky)
  moreover have "actions wr = actions w @ [Calibrate, Reset]"
    using r(1) actions_cong[OF a(3)] by simp
  moreover have "refresh_times wr = refresh_times w"
    using r(8) refresh_times_cong[OF a(3)] by simp
  ultimately show ?thesis using abort a(4) by blast
next
  case (complete we s u d)
  from wait_frame[OF complete(1)] have a: "no_write w we" "shown we = shown (prompted w)"
    by simp_all
  note b = sample_sum_frame[OF complete(2)] sample_sum_no_write[OF complete(2)]
  note c = delay_frame[OF complete(3)]
  have "no_write we u" by (rule b)
  moreover have "no_write u d" using c(4) by simp
  ultimately have "no_write w d" using a(1) by (meson no_write_trans)
  then have "no_write w w'" by (simp add: complete(4))
  moreover have "shown w' = shown (prompted w) @ [(clock u, TmClearDisplay), (clock u, LcdClear),
      (clock u, LcdSetCursor 0 0), (clock u, LcdPrint ''Calibration Done''), (clock d, LcdClear)]"
    using a(2) b(1) c(3) by (simp add: complete(4))
  then have "actions w' = actions w @ [Calibrate, Calibrated]"
    "refresh_times w' = refresh_times w"
    using prompted_fields(8,9)[of w] by (simp_all add: actions_def refresh_times_def)
  ultimately show ?thesis by blast
qed

section \<open>Tare values and weights\<close>

lemma calibrateScale_alt:
  "calibrateScale w = do {
     r \<leftarrow> wait_for_reset (millis w) (prompted w);
     case r of
       Aborted w \<Rightarrow> do { w \<leftarrow> resetScale w; Some (w\<lparr>resetPressed := False\<rparr>) }
     | Expired w \<Rightarrow> do {
         (acc, w) \<leftarrow> sample_sum TARE_SAMPLES 0 w;
         w \<leftarrow> delay 2000 (display (LcdPrint ''Calibration Done'') (display (LcdSetCursor 0 0)
           (display LcdClear (display TmClearDisplay
             (w\<lparr>tare := long_of_f32 (f32_sub (f32_of_long (long_div acc (int TARE_SAMPLES)))
                  (f32_div KNOWN_WEIGHT CALIBRATION_FACTOR))\<rparr>)))));
         Some (display LcdClear w) } }"
  by (simp add: calibrateScale_def prompted_def Let_def)

lemma mean_exact:
  assumes "length vs = 10" and "\<forall>v\<in>set vs. - (2 ^ 24) \<le> v \<and> v < 2 ^ 24"
  shows "long_div (foldl long_add 0 (map to_long vs)) 10 = sum_list vs sdiv 10"
proof -
  have "map to_long vs = vs"
    by (rule map_idI, rule to_long_id) (use assms(2) in auto)
  moreover have "foldl long_add 0 vs = 0 + sum_list vs"
    by (rule foldl_long_add[where B = "2 ^ 24"]) (use assms in \<open>auto simp: abs_le_iff\<close>)
  moreover have "\<bar>sum_list vs\<bar> \<le> 2 ^ 24 * int (length vs)"
    using assms(2) by (induction vs) (auto simp: abs_le_iff algebra_simps)
  moreover have "\<bar>sum_list vs sdiv 10\<bar> \<le> \<bar>sum_list vs\<bar>"
    by (rule sdiv_abs_le)
  ultimately show ?thesis
    using assms(1) by (simp add: long_div_def to_long_id abs_less_iff)
qed

lemma sum_list_between:
  "\<forall>v\<in>set vs. lo \<le> v \<and> v \<le> hi \<Longrightarrow>
     int (length vs) * lo \<le> sum_list vs \<and> sum_list vs \<le> int (length vs) * hi"
  by (induction vs) (auto simp: algebra_simps)

lemma sdiv_between:
  assumes "10 * lo \<le> S" and "S \<le> 10 * hi"
  shows "lo \<le> S sdiv 10 \<and> S sdiv 10 \<le> (hi :: int)"
proof (cases "0 \<le> S")
  case True
  then have "S sdiv 10 = S div 10" by (simp add: signed_divide_int_def sgn_if)
  with assms True show ?thesis by auto
next
  case False
  then have "S sdiv 10 = - ((- S) div 10)" by (simp add: signed_divide_int_def sgn_if)
  with assms False show ?thesis by auto
qed

lemma weight_bound:
  assumes "\<bar>d\<bar> \<le> B"
  shows "\<bar>f32_mul (f32_of_long d) CALIBRATION_FACTOR\<bar>
           \<le> of_int B * CALIBRATION_FACTOR * (1 + (2 ^ 25 + 1) / 2 ^ 48)"
proof -
  define v where "v = f32_mul (f32_of_long d) CALIBRATION_FACTOR"
  define c where "c = CALIBRATION_FACTOR"
  have c: "0 < c" by (simp add: c_def CALIBRATION_FACTOR_eq)
  have "\<bar>v\<bar> \<le> \<bar>v - of_int d * c\<bar> + \<bar>of_int d * c\<bar>" by simp
  also have "\<dots> \<le> \<bar>of_int d\<bar> * c * ((2 ^ 25 + 1) / 2 ^ 48) + \<bar>of_int d\<bar> * c"
  proof -
    have "\<bar>of_int d * c\<bar> = \<bar>of_int d\<bar> * c" using c by (simp add: abs_mult)
    with weight_err[of d] show ?thesis unfolding v_def c_def by linarith
  qed
  also have "\<dots> = \<bar>of_int d\<bar> * (c * (1 + (2 ^ 25 + 1) / 2 ^ 48))" by (simp add: algebra_simps)
  also have "\<dots> \<le> of_int B * (c * (1 + (2 ^ 25 + 1) / 2 ^ 48))"
  proof (rule mult_right_mono)
    have "rat_of_int \<bar>d\<bar> \<le> of_int B" using assms by (simp only: of_int_le_iff)
    then show "\<bar>rat_of_int d\<bar> \<le> rat_of_int B" by simp
    show "0 \<le> c * (1 + (2 ^ 25 + 1) / 2 ^ 48)" using c by simp
  qed
  finally show ?thesis by (simp add: v_def c_def algebra_simps)
qed

lemma resetScale_forgets_tare: "resetScale (w\<lparr>tare := t\<rparr>) = resetScale w"
  by (simp add: resetScale_def Let_def display_def)

section \<open>The reset action\<close>

text \<open>
  Claim C5. The reset action discards the old tare (it stores zero before anything else
  can read it, so the result does not depend on the tare it started from) and then runs the
  tare estimator on the next ten samples. When these ten no-load samples and the reading
  taken right afterwards all lie between \<open>lo\<close> and \<open>hi\<close>, the weight computed from that
  reading is at most \<open>(hi - lo) * CALIBRATION_FACTOR\<close> in magnitude, up to the rounding of
  the two float operations: approximately zero for a steady scale, and exactly zero when
  the readings are constant.
\<close>

theorem resetScale_rezeroes:
  assumes "13 \<le> length (ticks w)" and "hx711 w = vs @ r # rest" and "length vs = 10"
    and "\<forall>v\<in>set (r # vs). lo \<le> v \<and> v \<le> hi" and "- (2 ^ 24) \<le> lo" and "hi < 2 ^ 24"
  shows "\<exists>w1 v w2. resetScale w = Some w1 \<and> getWeight w1 = Some (v, w2) \<and>
           resetScale (w\<lparr>tare := t\<rparr>) = resetScale w \<and>
           tare w1 = sum_list vs sdiv 10 \<and>
           \<bar>v\<bar> \<le> of_int (hi - lo) * CALIBRATION_FACTOR * (1 + (2 ^ 25 + 1) / 2 ^ 48) \<and>
           (lo = hi \<longrightarrow> v = 0)"
proof -
  have "12 \<le> length (ticks w)" "10 \<le> length (hx711 w)" using assms by simp_all
  from resetScale_total[OF this] obtain w1 where r1: "resetScale w = Some w1" by blast
  note f = resetScale_frame[OF r1]
  have bits: "\<forall>v\<in>set vs. - (2 ^ 24) \<le> v \<and> v < 2 ^ 24" using assms(4-6) by auto
  have t: "tare w1 = sum_list vs sdiv 10"
    using f(7) assms(2,3) mean_exact[OF assms(3) bits] by simp
  have between: "lo \<le> tare w1 \<and> tare w1 \<le> hi"
    unfolding t using sum_list_between[of vs lo hi] assms(3,4) by (intro sdiv_between) auto
  have h: "hx711 w1 = r # rest" "ticks w1 \<noteq> []" using f(3,4) assms(1,2,3) by auto
  have r: "lo \<le> r" "r \<le> hi" using assms(4) by simp_all
  have rr: "- (2 ^ 31) \<le> r" "r < 2 ^ 31" "- (2 ^ 31) \<le> r - tare w1" "r - tare w1 < 2 ^ 31"
    using r between assms(5,6) by simp_all
  from scale_read_total[of w1] h obtain w2 where "scale_read w1 = Some (to_long r, w2)" by auto
  then have g: "getWeight w1 = Some (- f32_mul (f32_of_long (r - tare w1)) CALIBRATION_FACTOR, w2)"
    using rr by (simp add: getWeight_eq long_sub_def to_long_id)
  have "\<bar>r - tare w1\<bar> \<le> hi - lo" using r between by linarith
  from weight_bound[OF this]
  have b: "\<bar>- f32_mul (f32_of_long (r - tare w1)) CALIBRATION_FACTOR\<bar>
      \<le> of_int (hi - lo) * CALIBRATION_FACTOR * (1 + (2 ^ 25 + 1) / 2 ^ 48)" by simp
  then have z: "lo = hi \<longrightarrow> - f32_mul (f32_of_long (r - tare w1)) CALIBRATION_FACTOR = 0"
    by auto
  from r1 g t b z resetScale_forgets_tare[where w = w and t = t] show ?thesis by blast
qed

section \<open>The calibration action\<close>

text \<open>
  A reset flag that is set, or becomes set, while the busy-wait is still inside its five
  seconds: the calibration action is left through the reset action.
\<close>

lemma calibrateScale_aborts:
  assumes "n + 13 \<le> length (ticks w)"
    and "sum_list (map dt (take (Suc n) (ticks w))) < 5000"
    and "resetPressed w \<or> list_ex rstIrq (take (Suc n) (ticks w))"
    and "hx711 w = vs @ rest" and "length vs = 10"
    and "\<forall>v\<in>set vs. - (2 ^ 24) \<le> v \<and> v < 2 ^ 24"
  shows "\<exists>w'. calibrateScale w = Some w' \<and>
           actions w' = actions w @ [Calibrate, Reset] \<and>
           tare w' = sum_list vs sdiv 10 \<and>
           \<not> resetPressed w'"
proof -
  have "\<exists>u. wait_for_reset (clock (prompted w) mod 2 ^ 32) (prompted w) = Some (Aborted u) \<and>
           length (ticks (prompted w)) \<le> length (ticks u) + Suc n"
    by (rule wait_aborts[where e = 0]) (use assms in simp_all)
  then obtain u where u: "wait_for_reset (millis w) (prompted w) = Some (Aborted u)"
    and len: "length (ticks w) \<le> length (ticks u) + Suc n"
    by (auto simp: millis_def)
  from wait_frame[OF u] have hu: "hx711 u = hx711 w" "shown u = shown (prompted w)" by simp_all
  have "12 \<le> length (ticks u)" "10 \<le> length (hx711 u)" using len assms hu by simp_all
  from resetScale_total[OF this] obtain wr where r: "resetScale u = Some wr" by blast
  note f = resetScale_frame[OF r]
  have c: "calibrateScale w = Some (wr\<lparr>resetPressed := False\<rparr>)"
    by (simp add: calibrateScale_alt u r)
  have "actions wr = actions w @ [Calibrate, Reset]"
    using f(1) actions_cong[OF hu(2)] by simp
  moreover have "tare wr = sum_list vs sdiv 10"
    using f(7) hu(1) assms(4,5) mean_exact[OF assms(5,6)] by simp
  ultimately show ?thesis using c by (simp add: actions_def)
qed

lemma wait_ends_prompted [simp]: "wait_ends n (prompted w) = wait_ends n w"
  by (simp add: wait_ends_def)

lemma calibrateScale_total:
  assumes "n + 13 \<le> length (ticks w)" and "10 \<le> length (hx711 w)" and "wait_ends n w"
  shows "\<exists>w'. calibrateScale w = Some w' \<and>
           length (ticks w) \<le> length (ticks w') + (n + 13) \<and>
           length (hx711 w) \<le> length (hx711 w') + 10"
proof -
  have "n < length (ticks (prompted w))" "wait_ends n (prompted w)" using assms by simp_all
  from wait_ends_result[OF this] obtain r
    where r: "wait_for_reset (millis w) (prompted w) = Some r"
      and len: "length (ticks w) \<le> length (ticks (outcome r)) + Suc n"
    by (auto simp: millis_def)
  from wait_frame[OF r] have h: "hx711 (outcome r) = hx711 w" by simp
  show ?thesis
  proof (cases r)
    case (Aborted u)
    have "12 \<le> length (ticks u)" "10 \<le> length (hx711 u)"
      using len h assms Aborted by simp_all
    from resetScale_total[OF this] obtain wr where rs: "resetScale u = Some wr" by blast
    note f = resetScale_frame[OF rs]
    have "calibrateScale w = Some (wr\<lparr>resetPressed := False\<rparr>)"
      by (simp add: calibrateScale_alt r Aborted rs)
    moreover have "length (ticks w) \<le> length (ticks wr) + (n + 13)"
      "length (hx711 w) \<le> length (hx711 wr) + 10"
      using f(3,4,5,6) len h Aborted by simp_all
    ultimately show ?thesis by simp
  next
    case (Expired u)
    have "TARE_SAMPLES \<le> length (ticks u)" "TARE_SAMPLES \<le> length (hx711 u)"
      using len h assms Expired by (simp_all add: TARE_SAMPLES_def)
    from sample_sum_total[OF this, of 0] obtain s v
      where ss: "sample_sum TARE_SAMPLES 0 u = Some (s, v)" by fastforce
    note g = sample_sum_frame[OF ss]
    define a where "a = display (LcdPrint ''Calibration Done'') (display (LcdSetCursor 0 0)
           (display LcdClear (display TmClearDisplay
             (v\<lparr>tare := long_of_f32 (f32_sub (f32_of_long (long_div s (int TARE_SAMPLES)))
                  (f32_div KNOWN_WEIGHT CALIBRATION_FACTOR))\<rparr>))))"
    have ta: "ticks a = drop 10 (ticks u)" "hx711 a = drop 10 (hx711 u)"
      using g by (simp_all add: a_def TARE_SAMPLES_def)
    then have "ticks a \<noteq> []" using len assms Expired by simp
    from delay_total[OF this] obtain d where d: "delay 2000 a = Some d" by blast
    note k = delay_frame[OF d]
    have "calibrateScale w = Some (display LcdClear d)"
      using d unfolding a_def by (simp add: calibrateScale_alt r Expired ss)
    moreover have "length (ticks w) \<le> length (ticks d) + (n + 13)"
      "length (hx711 w) \<le> length (hx711 d) + 10"
      using k(2,5) ta len h Expired by simp_all
    ultimately show ?thesis by simp
  qed
qed

text \<open>
  A wait that runs to its end without a turn finding the flag set: the calibration is
  completed, and a reset interrupt that fired in the last turn of the wait, or fires
  during the sampling, is still pending on return.
\<close>

lemma calibrateScale_completes:
  assumes "n + 12 \<le> length (ticks w)"
    and "hx711 w = vs @ rest" and "length vs = 10"
    and "\<forall>v\<in>set vs. - (2 ^ 24) \<le> v \<and> v < 2 ^ 24"
    and "sum_list (map dt (take n (ticks w))) < 5000"
    and "5000 \<le> sum_list (map dt (take (Suc n) (ticks w)))"
    and "sum_list (map dt (take (Suc n) (ticks w))) < 2 ^ 32"
    and "\<not> resetPressed w" and "\<not> list_ex rstIrq (take n (ticks w))"
  shows "\<exists>w'. calibrateScale w = Some w' \<and>
           actions w' = actions w @ [Calibrate, Calibrated] \<and>
           tare w' = long_of_f32 (f32_sub (f32_of_long (sum_list vs sdiv 10))
                       (f32_div KNOWN_WEIGHT CALIBRATION_FACTOR)) \<and>
           resetPressed w' = list_ex rstIrq (take (n + 12) (ticks w))"
proof -
  have "\<exists>u. wait_for_reset (clock (prompted w) mod 2 ^ 32) (prompted w) = Some (Expired u) \<and>
           ticks u = drop (Suc n) (ticks (prompted w))"
    by (rule wait_expires[where e = 0]) (use assms in simp_all)
  then obtain u where u: "wait_for_reset (millis w) (prompted w) = Some (Expired u)"
    and tu: "ticks u = drop (Suc n) (ticks w)"
    by (auto simp: millis_def)
  from wait_frame[OF u] have hu: "hx711 u = vs @ rest" using assms(2) by simp
  have "10 \<le> length (ticks u)" using tu assms(1) by simp
  from sample_sum_exact[OF this hu assms(3,4)] obtain v
    where ss: "sample_sum TARE_SAMPLES 0 u = Some (sum_list vs, v)"
      and m: "long_div (sum_list vs) (int TARE_SAMPLES) = sum_list vs sdiv 10"
    by blast
  note g = sample_sum_frame[OF ss]
  define a where "a = display (LcdPrint ''Calibration Done'') (display (LcdSetCursor 0 0)
         (display LcdClear (display TmClearDisplay
           (v\<lparr>tare := long_of_f32 (f32_sub (f32_of_long (long_div (sum_list vs) (int TARE_SAMPLES)))
                (f32_div KNOWN_WEIGHT CALIBRATION_FACTOR))\<rparr>))))"
  have ta: "ticks a = drop (n + 11) (ticks w)"
    using g tu by (simp add: a_def TARE_SAMPLES_def add.commute)
  then have "ticks a \<noteq> []" using assms(1) by simp
  from delay_total[OF this] obtain d where d: "delay 2000 a = Some d" by blast
  note k = delay_frame[OF d]
  define w' where "w' = display LcdClear d"
  have c: "calibrateScale w = Some w'"
    using d unfolding a_def w'_def by (simp add: calibrateScale_alt u ss)
  have t: "tare w' = long_of_f32 (f32_sub (f32_of_long (sum_list vs sdiv 10))
                       (f32_div KNOWN_WEIGHT CALIBRATION_FACTOR))"
    using k(1) by (simp add: w'_def a_def m)
  have tw: "ticks w' = drop (n + 12) (ticks w)"
    using k(5) ta by (simp add: w'_def drop_Suc[symmetric] tl_drop add.commute)
  from calibrateScale_frame[OF c] u
  have n: "no_write w w'" and ac: "actions w' = actions w @ [Calibrate, Calibrated]" by auto
  have "consumed w w' = take (n + 12) (ticks w)"
    using tw assms(1) by (simp add: consumed_def)
  with n assms(8) have "resetPressed w' = list_ex rstIrq (take (n + 12) (ticks w))"
    by (simp add: no_write_def)
  with c ac t show ?thesis by blast
qed

text \<open>
  Claim C3, as the code has it. The wait tests the reset flag once per turn, and only in
  turns that begin with less than 5000 ms gone since the wait started. If the flag is set,
  or becomes set, by such a turn (the turn \<open>n\<close> of the first conjunct), the calibration
  action is left through the reset action: the prompt is followed by the reset, the message
  of a completed calibration is never shown, the tare on return is the estimate of the tare
  estimator over the next ten samples and not a calibration value, and the reset flag is
  clear. If no such turn finds the flag set and turn \<open>n\<close> is the first to find the five
  seconds over, the calibration is completed even when the reset interrupt fired during
  that last turn: the calibration value is stored as tare, the message of the completed
  calibration is shown, and the reset flag is still set on return, for the reset test of
  \<^verbatim>\<open>loop()\<close> to find.
\<close>

theorem calibrateScale_reset_priority:
  assumes "n + 13 \<le> length (ticks w)"
    and "hx711 w = vs @ rest" and "length vs = 10"
    and "\<forall>v\<in>set vs. - (2 ^ 24) \<le> v \<and> v < 2 ^ 24"
  shows "(sum_list (map dt (take (Suc n) (ticks w))) < 5000 \<and>
          (resetPressed w \<or> list_ex rstIrq (take (Suc n) (ticks w))) \<longrightarrow>
          (\<exists>w'. calibrateScale w = Some w' \<and>
             actions w' = actions w @ [Calibrate, Reset] \<and>
             tare w' = sum_list vs sdiv 10 \<and>
             \<not> resetPressed w')) \<and>
         (sum_list (map dt (take n (ticks w))) < 5000 \<and>
          5000 \<le> sum_list (map dt (take (Suc n) (ticks w))) \<and>
          sum_list (map dt (take (Suc n) (ticks w))) < 2 ^ 32 \<and>
          \<not> resetPressed w \<and> \<not> list_ex rstIrq (take n (ticks w)) \<longrightarrow>
          (\<exists>w'. calibrateScale w = Some w' \<and>
             actions w' = actions w @ [Calibrate, Calibrated] \<and>
             tare w' = long_of_f32 (f32_sub (f32_of_long (sum_list vs sdiv 10))
                         (f32_div KNOWN_WEIGHT CALIBRATION_FACTOR)) \<and>
             resetPressed w' = list_ex rstIrq (take (n + 12) (ticks w))))"
proof (intro conjI impI)
  assume "sum_list (map dt (take (Suc n) (ticks w))) < 5000 \<and>
          (resetPressed w \<or> list_ex rstIrq (take (Suc n) (ticks w)))"
  then show "\<exists>w'. calibrateScale w = Some w' \<and>
             actions w' = actions w @ [Calibrate, Reset] \<and>
             tare w' = sum_list vs sdiv 10 \<and> \<not> resetPressed w'"
    using calibrateScale_aborts[OF assms(1) _ _ assms(2,3,4)] by blast
next
  assume "sum_list (map dt (take n (ticks w))) < 5000 \<and>
          5000 \<le> sum_list (map dt (take (Suc n) (ticks w))) \<and>
          sum_list (map dt (take (Suc n) (ticks w))) < 2 ^ 32 \<and>
          \<not> resetPressed w \<and> \<not> list_ex rstIrq (take n (ticks w))"
  moreover have "n + 12 \<le> length (ticks w)" using assms(1) by simp
  ultimately show "\<exists>w'. calibrateScale w = Some w' \<and>
             actions w' = actions w @ [Calibrate, Calibrated] \<and>
             tare w' = long_of_f32 (f32_sub (f32_of_long (sum_list vs sdiv 10))
                         (f32_div KNOWN_WEIGHT CALIBRATION_FACTOR)) \<and>
             resetPressed w' = list_ex rstIrq (take (n + 12) (ticks w))"
    using calibrateScale_completes[OF _ assms(2,3,4)] by blast
qed

section \<open>The control loop\<close>

lemma no_write_cal: "no_write w w' \<Longrightarrow> cal_by_irq w w'"
  by (simp add: no_write_def cal_by_irq_def)

lemma cal_by_irq_trans:
  assumes "cal_by_irq w w'" and "cal_by_irq w' w''"
  shows "cal_by_irq w w''"
proof -
  let ?a = "consumed w w'" and ?b = "consumed w' w''"
  from assms have t: "ticks w = (?a @ ?b) @ ticks w''" by (simp add: cal_by_irq_def)
  from consumed_eq[OF t] t assms show ?thesis by (auto simp: cal_by_irq_def)
qed

lemma cal_by_irq_upd [simp]:
  "cal_by_irq w (u\<lparr>resetPressed := b\<rparr>) = cal_by_irq w u"
  "cal_by_irq w (u\<lparr>lastUpdateTime := l\<rparr>) = cal_by_irq w u"
  by (simp_all add: cal_by_irq_def consumed_def)

lemma cal_by_irq_refl [simp]: "cal_by_irq w w"
  by (simp add: cal_by_irq_def consumed_def)

lemma budget_no_write: "no_write w w' \<Longrightarrow> reset_budget w' \<le> reset_budget w"
proof -
  assume n: "no_write w w'"
  let ?ks = "consumed w w'"
  from n have t: "ticks w = ?ks @ ticks w'"
    and r: "resetPressed w' = (resetPressed w \<or> list_ex rstIrq ?ks)"
    by (simp_all add: no_write_def)
  have "list_ex rstIrq ?ks \<Longrightarrow> 1 \<le> length (filter rstIrq ?ks)"
    by (induction ?ks) (auto simp: list_ex_iff filter_empty_conv Suc_le_eq)
  then have "(of_bool (resetPressed w') :: nat) \<le> of_bool (resetPressed w) + length (filter rstIrq ?ks)"
    using r by (cases "resetPressed w") auto
  moreover have "length (filter rstIrq (ticks w)) = length (filter rstIrq ?ks) + length (filter rstIrq (ticks w'))"
    by (subst t) simp
  ultimately show ?thesis by (simp add: reset_budget_def)
qed

lemma budget_clear:
  "resetPressed u \<Longrightarrow> Suc (reset_budget (u\<lparr>resetPressed := False\<rparr>)) = reset_budget u"
  by (simp add: reset_budget_def)

lemma budget_upd [simp]:
  "reset_budget (u\<lparr>calibratePressed := b\<rparr>) = reset_budget u"
  "reset_budget (u\<lparr>lastUpdateTime := l\<rparr>) = reset_budget u"
  by (simp_all add: reset_budget_def)

lemma actions_upd [simp]:
  "actions (u\<lparr>calibratePressed := b\<rparr>) = actions u"
  "actions (u\<lparr>resetPressed := b\<rparr>) = actions u"
  "actions (u\<lparr>lastUpdateTime := l\<rparr>) = actions u"
  "refresh_times (u\<lparr>calibratePressed := b\<rparr>) = refresh_times u"
  "refresh_times (u\<lparr>resetPressed := b\<rparr>) = refresh_times u"
  "refresh_times (u\<lparr>lastUpdateTime := l\<rparr>) = refresh_times u"
  by (simp_all add: actions_def refresh_times_def)

text \<open>The first \<^verbatim>\<open>if\<close> of \<^verbatim>\<open>loop()\<close>.\<close>

lemma calibrate_if_pressed_frame:
  assumes "calibrate_if_pressed w = Some w'"
  shows "lastUpdateTime w' = lastUpdateTime w" "refresh_times w' = refresh_times w"
    "if calibratePressed w
     then \<not> calibratePressed w' \<and>
          (actions w' = actions w @ [Calibrate, Calibrated] \<or>
           actions w' = actions w @ [Calibrate, Reset] \<and> \<not> resetPressed w')
     else w' = w"
    "count_list (actions w') Reset + reset_budget w'
       \<le> count_list (actions w) Reset + reset_budget w"
proof -
  have "lastUpdateTime w' = lastUpdateTime w \<and> refresh_times w' = refresh_times w \<and>
    (if calibratePressed w
     then \<not> calibratePressed w' \<and>
          (actions w' = actions w @ [Calibrate, Calibrated] \<or>
           actions w' = actions w @ [Calibrate, Reset] \<and> \<not> resetPressed w')
     else w' = w) \<and>
    count_list (actions w') Reset + reset_budget w'
       \<le> count_list (actions w) Reset + reset_budget w"
  proof (cases "calibratePressed w")
    case False
    with assms show ?thesis by (simp add: calibrate_if_pressed_def)
  next
    case True
    with assms obtain wc where c: "calibrateScale w = Some wc"
      and w': "w' = wc\<lparr>calibratePressed := False\<rparr>"
      by (auto simp: calibrate_if_pressed_def split: Option.bind_splits)
    from calibrateScale_frame[OF c] show ?thesis
    proof (elim disjE exE conjE)
      fix wa wr
      assume a: "wc = wr\<lparr>resetPressed := False\<rparr>" "no_write w wr" "resetPressed wr"
        "actions wr = actions w @ [Calibrate, Reset]" "refresh_times wr = refresh_times w"
      from budget_no_write[OF a(2)] budget_clear[OF a(3)]
      have "Suc (reset_budget (wr\<lparr>resetPressed := False\<rparr>)) \<le> reset_budget w" by simp
      with a True show ?thesis by (simp add: w' no_write_def)
    next
      assume a: "no_write w wc" "actions wc = actions w @ [Calibrate, Calibrated]"
        "refresh_times wc = refresh_times w"
      from budget_no_write[OF a(1)] a True show ?thesis by (simp add: w' no_write_def)
    qed
  qed
  then show "lastUpdateTime w' = lastUpdateTime w" "refresh_times w' = refresh_times w"
    "if calibratePressed w
     then \<not> calibratePressed w' \<and>
          (actions w' = actions w @ [Calibrate, Calibrated] \<or>
           actions w' = actions w @ [Calibrate, Reset] \<and> \<not> resetPressed w')
     else w' = w"
    "count_list (actions w') Reset + reset_budget w'
       \<le> count_list (actions w) Reset + reset_budget w"
    by simp_all
qed

text \<open>The rest of \<^verbatim>\<open>loop()\<close>, from the test of the reset flag on.\<close>

lemma reset_or_refresh_frame:
  assumes "reset_or_refresh c w = Some w'"
  shows "if resetPressed w
     then actions w' = actions w @ [Reset] \<and> \<not> resetPressed w' \<and>
          lastUpdateTime w' = lastUpdateTime w \<and> refresh_times w' = refresh_times w
     else if DISPLAY_UPDATE_INTERVAL \<le> ulong_sub c (lastUpdateTime w)
     then actions w' = actions w @ [Refresh] \<and> lastUpdateTime w' = c \<and>
          refresh_times w' = refresh_times w @ [clock w + dt (hd (ticks w))]
     else w' = w"
    "cal_by_irq w w'"
    "count_list (actions w') Reset + reset_budget w'
       \<le> count_list (actions w) Reset + reset_budget w"
proof -
  consider (reset) "resetPressed w"
    | (refresh) "\<not> resetPressed w" "DISPLAY_UPDATE_INTERVAL \<le> ulong_sub c (lastUpdateTime w)"
    | (idle) "\<not> resetPressed w" "\<not> DISPLAY_UPDATE_INTERVAL \<le> ulong_sub c (lastUpdateTime w)"
    by blast
  then have "(if resetPressed w
     then actions w' = actions w @ [Reset] \<and> \<not> resetPressed w' \<and>
          lastUpdateTime w' = lastUpdateTime w \<and> refresh_times w' = refresh_times w
     else if DISPLAY_UPDATE_INTERVAL \<le> ulong_sub c (lastUpdateTime w)
     then actions w' = actions w @ [Refresh] \<and> lastUpdateTime w' = c \<and>
          refresh_times w' = refresh_times w @ [clock w + dt (hd (ticks w))]
     else w' = w) \<and> cal_by_irq w w' \<and>
    count_list (actions w') Reset + reset_budget w'
       \<le> count_list (actions w) Reset + reset_budget w"
  proof cases
    case reset
    with assms obtain wr where r: "resetScale w = Some wr" and w': "w' = wr\<lparr>resetPressed := False\<rparr>"
      by (auto simp: reset_or_refresh_def split: Option.bind_splits)
    note f = resetScale_frame[OF r]
    have "resetPressed wr" using f(2) reset by (rule no_write_sticky)
    from budget_no_write[OF f(2)] budget_clear[OF this]
    have "Suc (reset_budget (wr\<lparr>resetPressed := False\<rparr>)) \<le> reset_budget w" by simp
    with f reset no_write_cal[OF f(2)] show ?thesis by (simp add: w' no_write_def)
  next
    case refresh
    with assms obtain wu where u: "updateDisplay w = Some wu" and w': "w' = wu\<lparr>lastUpdateTime := c\<rparr>"
      by (auto simp: reset_or_refresh_def split: Option.bind_splits)
    note f = updateDisplay_frame[OF u]
    from budget_no_write[OF f(2)] f refresh no_write_cal[OF f(2)] show ?thesis by (simp add: w')
  next
    case idle
    with assms show ?thesis by (simp add: reset_or_refresh_def)
  qed
  then show "if resetPressed w
     then actions w' = actions w @ [Reset] \<and> \<not> resetPressed w' \<and>
          lastUpdateTime w' = lastUpdateTime w \<and> refresh_times w' = refresh_times w
     else if DISPLAY_UPDATE_INTERVAL \<le> ulong_sub c (lastUpdateTime w)
     then actions w' = actions w @ [Refresh] \<and> lastUpdateTime w' = c \<and>
          refresh_times w' = refresh_times w @ [clock w + dt (hd (ticks w))]
     else w' = w"
    "cal_by_irq w w'"
    "count_list (actions w') Reset + reset_budget w'
       \<le> count_list (actions w) Reset + reset_budget w"
    by simp_all
qed

lemma loopE:
  assumes "loop w = Some w'"
  obtains w1 w2 w3 where "elapse w = Some w1" "calibrate_if_pressed w1 = Some w2"
    "elapse w2 = Some w3" "reset_or_refresh (millis w1) w3 = Some w'"
  using assms unfolding loop_stages by (auto split: Option.bind_splits)

text \<open>
  A call of \<^verbatim>\<open>loop()\<close> returns when the environment goes on for long enough: 27 ticks and
  20 samples cover every path through the call apart from the turns of the busy-wait.
\<close>

lemma loop_returns:
  assumes "n + 27 \<le> length (ticks w)" and "20 \<le> length (hx711 w)"
    and "elapse w = Some w1" and "calibratePressed w1 \<longrightarrow> wait_ends n w1"
  shows "\<exists>w'. loop w = Some w'"
proof -
  note f = elapse_frame[OF assms(3)]
  have l1: "n + 26 \<le> length (ticks w1)" "20 \<le> length (hx711 w1)"
    using f assms(1,2) by simp_all
  have "\<exists>w2. calibrate_if_pressed w1 = Some w2 \<and> 13 \<le> length (ticks w2) \<and>
          10 \<le> length (hx711 w2)"
  proof (cases "calibratePressed w1")
    case False
    with l1 show ?thesis by (simp add: calibrate_if_pressed_def)
  next
    case True
    with assms(4) have "wait_ends n w1" by simp
    with l1 have "\<exists>w'. calibrateScale w1 = Some w' \<and>
           length (ticks w1) \<le> length (ticks w') + (n + 13) \<and>
           length (hx711 w1) \<le> length (hx711 w') + 10"
      by (intro calibrateScale_total) simp_all
    then obtain wc where "calibrateScale w1 = Some wc"
      "length (ticks w1) \<le> length (ticks wc) + (n + 13)"
      "length (hx711 w1) \<le> length (hx711 wc) + 10"
      by blast
    with True l1 show ?thesis by (simp add: calibrate_if_pressed_def)
  qed
  then obtain w2 where c: "calibrate_if_pressed w1 = Some w2"
    and l2: "13 \<le> length (ticks w2)" "10 \<le> length (hx711 w2)"
    by blast
  from l2 obtain w3 where e3: "elapse w2 = Some w3"
    by (cases "ticks w2") (auto simp: elapse_eq)
  note g = elapse_frame[OF e3]
  have l3: "12 \<le> length (ticks w3)" "10 \<le> length (hx711 w3)" using g l2 by simp_all
  have "\<exists>w'. reset_or_refresh (millis w1) w3 = Some w'"
  proof (cases "resetPressed w3")
    case True
    from resetScale_total[OF l3] obtain wr where "resetScale w3 = Some wr" by blast
    with True show ?thesis by (simp add: reset_or_refresh_def)
  next
    case False
    have "2 \<le> length (ticks w3)" "2 \<le> length (hx711 w3)" using l3 by simp_all
    from updateDisplay_total[OF this] obtain wu where "updateDisplay w3 = Some wu" by blast
    with False show ?thesis by (simp add: reset_or_refresh_def)
  qed
  then obtain w' where "reset_or_refresh (millis w1) w3 = Some w'" by blast
  with assms(3) c e3 show ?thesis by (simp add: loop_stages)
qed

lemma loop_budget:
  assumes "loop w = Some w'"
  shows "count_list (actions w') Reset + reset_budget w'
       \<le> count_list (actions w) Reset + reset_budget w"
  using assms
proof (cases rule: loopE)
  case (1 w1 w2 w3)
  have "count_list (actions w1) Reset + reset_budget w1 \<le> count_list (actions w) Reset + reset_budget w"
    using budget_no_write[OF elapse_no_write[OF 1(1)]] actions_cong[OF elapse_frame(4)[OF 1(1)]]
    by simp
  moreover have "count_list (actions w3) Reset + reset_budget w3 \<le> count_list (actions w2) Reset + reset_budget w2"
    using budget_no_write[OF elapse_no_write[OF 1(3)]] actions_cong[OF elapse_frame(4)[OF 1(3)]]
    by simp
  ultimately show ?thesis
    using calibrate_if_pressed_frame(4)[OF 1(2)] reset_or_refresh_frame(3)[OF 1(4)] by linarith
qed

lemma run_budget:
  "run n w = Some w' \<Longrightarrow>
     count_list (actions w') Reset + reset_budget w'
       \<le> count_list (actions w) Reset + reset_budget w"
proof (induction n arbitrary: w)
  case 0
  then show ?case by simp
next
  case (Suc n)
  then obtain u where l: "loop w = Some u" and r: "run n u = Some w'"
    by (auto split: Option.bind_splits)
  from loop_budget[OF l] Suc.IH[OF r] show ?case by linarith
qed

lemma loop_elapse_frame:
  assumes "elapse w = Some w1"
  shows "actions w1 = actions w" "refresh_times w1 = refresh_times w"
    "lastUpdateTime w1 = lastUpdateTime w" "cal_by_irq w w1"
  using elapse_frame[OF assms] no_write_cal[OF elapse_no_write[OF assms]]
  by (simp_all add: actions_def refresh_times_def)

text \<open>What a call of \<^verbatim>\<open>loop()\<close> that returns has done, test by test.\<close>

lemma loop_tests:
  assumes "loop w = Some w'"
  shows "\<exists>w1 w2 w3. elapse w = Some w1 \<and> calibrate_if_pressed w1 = Some w2 \<and>
     elapse w2 = Some w3 \<and>
     (if calibratePressed w1
      then \<not> calibratePressed w2 \<and>
           (actions w2 = actions w @ [Calibrate, Calibrated] \<or>
            actions w2 = actions w @ [Calibrate, Reset])
      else w2 = w1) \<and>
     (if resetPressed w3
      then actions w' = actions w2 @ [Reset] \<and> \<not> resetPressed w'
      else if DISPLAY_UPDATE_INTERVAL \<le> ulong_sub (millis w1) (lastUpdateTime w)
      then actions w' = actions w2 @ [Refresh] \<and> lastUpdateTime w' = millis w1
      else w' = w3)"
  using assms
proof (cases rule: loopE)
  case (1 w1 w2 w3)
  note a = loop_elapse_frame[OF 1(1)] and b = calibrate_if_pressed_frame[OF 1(2)]
    and c = loop_elapse_frame[OF 1(3)] and d = reset_or_refresh_frame[OF 1(4)]
  have "if calibratePressed w1
      then \<not> calibratePressed w2 \<and>
           (actions w2 = actions w @ [Calibrate, Calibrated] \<or>
            actions w2 = actions w @ [Calibrate, Reset])
      else w2 = w1"
    using b(3) a(1) by (auto split: if_splits)
  moreover have "if resetPressed w3
      then actions w' = actions w2 @ [Reset] \<and> \<not> resetPressed w'
      else if DISPLAY_UPDATE_INTERVAL \<le> ulong_sub (millis w1) (lastUpdateTime w)
      then actions w' = actions w2 @ [Refresh] \<and> lastUpdateTime w' = millis w1
      else w' = w3"
    using d(1) c(1,3) b(1) a(3) by (auto split: if_splits)
  ultimately show ?thesis using 1 by blast
qed

lemma loop_refresh:
  assumes "loop w = Some w'"
  shows "\<exists>w1 w2 w3. elapse w = Some w1 \<and> calibrate_if_pressed w1 = Some w2 \<and>
     elapse w2 = Some w3 \<and>
     (if \<not> resetPressed w3 \<and>
         DISPLAY_UPDATE_INTERVAL \<le> ulong_sub (millis w1) (lastUpdateTime w)
      then refresh_times w' = refresh_times w @ [clock w3 + dt (hd (ticks w3))] \<and>
           lastUpdateTime w' = millis w1
      else refresh_times w' = refresh_times w \<and> lastUpdateTime w' = lastUpdateTime w)"
  using assms
proof (cases rule: loopE)
  case (1 w1 w2 w3)
  note a = loop_elapse_frame[OF 1(1)] and b = calibrate_if_pressed_frame[OF 1(2)]
    and c = loop_elapse_frame[OF 1(3)] and d = reset_or_refresh_frame[OF 1(4)]
  have "if \<not> resetPressed w3 \<and>
         DISPLAY_UPDATE_INTERVAL \<le> ulong_sub (millis w1) (lastUpdateTime w)
      then refresh_times w' = refresh_times w @ [clock w3 + dt (hd (ticks w3))] \<and>
           lastUpdateTime w' = millis w1
      else refresh_times w' = refresh_times w \<and> lastUpdateTime w' = lastUpdateTime w"
    using d(1) c(2,3) b(1,2) a(2,3) by (auto split: if_splits)
  then show ?thesis using 1 by blast
qed

lemma loop_flag:
  assumes "elapse w = Some w1" and "calibratePressed w1" and "loop w = Some w'"
  shows "\<exists>w2. calibrate_if_pressed w1 = Some w2 \<and> \<not> calibratePressed w2 \<and>
     (actions w2 = actions w @ [Calibrate, Calibrated] \<or>
      actions w2 = actions w @ [Calibrate, Reset]) \<and>
     calibratePressed w' = list_ex calIrq (consumed w2 w')"
  using assms(3)
proof (cases rule: loopE)
  case (1 u1 w2 w3)
  with assms(1) have u1: "u1 = w1" by simp
  note a = loop_elapse_frame[OF assms(1)]
    and b = calibrate_if_pressed_frame[OF 1(2)[unfolded u1]]
    and c = loop_elapse_frame[OF 1(3)] and d = reset_or_refresh_frame[OF 1(4)]
  from cal_by_irq_trans[OF c(4) d(2)]
  have "calibratePressed w' = (calibratePressed w2 \<or> list_ex calIrq (consumed w2 w'))"
    by (simp add: cal_by_irq_def)
  moreover have "\<not> calibratePressed w2 \<and>
     (actions w2 = actions w @ [Calibrate, Calibrated] \<or>
      actions w2 = actions w @ [Calibrate, Reset])"
    using b(3) assms(2) a(1) by auto
  ultimately show ?thesis using 1(2) u1 by auto
qed

text \<open>
  A call of \<^verbatim>\<open>loop()\<close> that finds no flag set and the refresh interval not elapsed does
  nothing: it leaves the program as it was and only time has passed. So any number of
  such calls in a row is the same as one of them that takes as long as all together.
\<close>

lemma ulong_sub_self: "ulong_sub x x = 0"
  by (simp add: ulong_sub_def to_ulong_def)

lemma idle_call:
  assumes "ticks w = quiet d # quiet 0 # rest"
    and "\<not> calibratePressed w" and "\<not> resetPressed w"
    and "ulong_sub ((clock w + d) mod 2 ^ 32) (lastUpdateTime w) < DISPLAY_UPDATE_INTERVAL"
  shows "loop w = Some (w\<lparr>clock := clock w + d, ticks := rest\<rparr>)"
proof -
  have e1: "elapse w = Some (w\<lparr>clock := clock w + d, ticks := quiet 0 # rest\<rparr>)"
    using assms(1,2,3) by (simp add: elapse_eq quiet_def)
  have e2: "elapse (w\<lparr>clock := clock w + d, ticks := quiet 0 # rest\<rparr>)
      = Some (w\<lparr>clock := clock w + d, ticks := rest\<rparr>)"
    using assms(2,3) by (simp add: elapse_eq quiet_def)
  show ?thesis
    using assms(2,3,4) e2
    by (simp add: loop_stages e1 calibrate_if_pressed_def reset_or_refresh_def millis_def)
qed

lemma idle_calls:
  assumes "ticks w = concat (map (\<lambda>d. [quiet d, quiet 0]) ds) @ rest"
    and "\<not> calibratePressed w" and "\<not> resetPressed w"
    and "lastUpdateTime w \<le> clock w" and "clock w + sum_list ds < 2 ^ 32"
    and "clock w + sum_list ds < lastUpdateTime w + DISPLAY_UPDATE_INTERVAL"
  shows "run (length ds) w = Some (w\<lparr>clock := clock w + sum_list ds, ticks := rest\<rparr>)"
  using assms
proof (induction ds arbitrary: w)
  case Nil
  then show ?case by simp
next
  case (Cons d ds)
  let ?u = "w\<lparr>clock := clock w + d, ticks := concat (map (\<lambda>d. [quiet d, quiet 0]) ds) @ rest\<rparr>"
  let ?L = "lastUpdateTime w"
  have "ulong_sub ((?L + (clock w + d - ?L)) mod 2 ^ 32) (?L mod 2 ^ 32)
      = (clock w + d - ?L) mod 2 ^ 32"
    by (rule ulong_sub_millis)
  moreover have "?L + (clock w + d - ?L) = clock w + d" using Cons.prems(4) by simp
  moreover have "?L mod 2 ^ 32 = ?L" "(clock w + d - ?L) mod 2 ^ 32 = clock w + d - ?L"
    using Cons.prems(4,5) by simp_all
  ultimately have "ulong_sub ((clock w + d) mod 2 ^ 32) ?L = clock w + d - ?L"
    by simp
  also have "\<dots> < DISPLAY_UPDATE_INTERVAL" using Cons.prems(4,6) by simp
  finally have "loop w = Some ?u"
    using Cons.prems(1,2,3) by (intro idle_call) simp_all
  moreover have "run (length ds) ?u = Some (?u\<lparr>clock := clock ?u + sum_list ds, ticks := rest\<rparr>)"
    by (rule Cons.IH) (use Cons.prems in simp_all)
  ultimately show ?case by (simp add: add.assoc)
qed

text \<open>
  Claim C6, as the code has it. One call of \<^verbatim>\<open>loop()\<close> makes three tests in sequence, and the
  first does not exclude the others. If the calibrate flag is set, the calibration action
  runs (to its end, or left through a reset) and the flag is cleared. Then, whether or not
  the calibration ran, the reset flag is tested: if it is set, the reset action runs, the
  flag is cleared and the call returns. Otherwise, if at least
  \<open>DISPLAY_UPDATE_INTERVAL\<close> milliseconds lie between the stored stamp and the time
  sampled on entry, the display refresh runs and the stamp becomes the time sampled on
  entry; else nothing more happens. The call returns on every one of these paths, provided
  the environment goes on: it supplies 27 more ticks and 20 more samples beyond the turns
  of the busy-wait, and the busy-wait, if entered, comes to an end.
\<close>

theorem loop_dispatch:
  assumes "n + 27 \<le> length (ticks w)" and "20 \<le> length (hx711 w)"
    and "elapse w = Some w1" and "calibratePressed w1 \<longrightarrow> wait_ends n w1"
  shows "\<exists>w2 w3 w'. loop w = Some w' \<and> calibrate_if_pressed w1 = Some w2 \<and>
     elapse w2 = Some w3 \<and>
     (if calibratePressed w1
      then \<not> calibratePressed w2 \<and>
           (actions w2 = actions w @ [Calibrate, Calibrated] \<or>
            actions w2 = actions w @ [Calibrate, Reset])
      else w2 = w1) \<and>
     (if resetPressed w3
      then actions w' = actions w2 @ [Reset] \<and> \<not> resetPressed w'
      else if DISPLAY_UPDATE_INTERVAL \<le> ulong_sub (millis w1) (lastUpdateTime w)
      then actions w' = actions w2 @ [Refresh] \<and> lastUpdateTime w' = millis w1
      else w' = w3)"
proof -
  from loop_returns[OF assms] obtain w' where l: "loop w = Some w'" by blast
  from loop_tests[OF l] assms(3) l show ?thesis by auto
qed

text \<open>
  Claim C7, as the code has it. The refresh is limited by time stamps, not by the clock at
  which it fires: in one call of \<^verbatim>\<open>loop()\<close> the weight is displayed exactly when the reset flag
  is clear at its test and at least \<open>DISPLAY_UPDATE_INTERVAL\<close> milliseconds (modulo
  \<open>2 ^ 32\<close>) lie between the stored stamp and the time sampled on entry to the call; the
  stamp then becomes that entry time. Otherwise nothing is displayed and the stamp stays.
  The call returns in either case, provided the environment goes on. Two successive
  refreshes therefore carry stamps at least 1000 ms apart, and a call that finds the
  interval elapsed and no reset pending does refresh: no call in which the reset flag is
  clear at its test ends with a stamp that is 1000 ms or more behind its entry time. The
  times at which the weight appears on the display can be less than 1000 ms apart and
  more than 1000 ms apart.
\<close>

theorem refresh_rate_limit:
  assumes "n + 27 \<le> length (ticks w)" and "20 \<le> length (hx711 w)"
    and "elapse w = Some w1" and "calibratePressed w1 \<longrightarrow> wait_ends n w1"
  shows "\<exists>w2 w3 w'. loop w = Some w' \<and> calibrate_if_pressed w1 = Some w2 \<and>
     elapse w2 = Some w3 \<and>
     (if \<not> resetPressed w3 \<and>
         DISPLAY_UPDATE_INTERVAL \<le> ulong_sub (millis w1) (lastUpdateTime w)
      then refresh_times w' = refresh_times w @ [clock w3 + dt (hd (ticks w3))] \<and>
           lastUpdateTime w' = millis w1
      else refresh_times w' = refresh_times w \<and> lastUpdateTime w' = lastUpdateTime w) \<and>
     (\<not> resetPressed w3 \<longrightarrow>
        ulong_sub (millis w1) (lastUpdateTime w') < DISPLAY_UPDATE_INTERVAL)"
proof -
  from loop_returns[OF assms] obtain w' where l: "loop w = Some w'" by blast
  from loop_refresh[OF l] assms(3) obtain w2 w3
    where s: "calibrate_if_pressed w1 = Some w2" "elapse w2 = Some w3"
      and r: "if \<not> resetPressed w3 \<and>
         DISPLAY_UPDATE_INTERVAL \<le> ulong_sub (millis w1) (lastUpdateTime w)
      then refresh_times w' = refresh_times w @ [clock w3 + dt (hd (ticks w3))] \<and>
           lastUpdateTime w' = millis w1
      else refresh_times w' = refresh_times w \<and> lastUpdateTime w' = lastUpdateTime w"
    by auto
  have "\<not> resetPressed w3 \<longrightarrow>
        ulong_sub (millis w1) (lastUpdateTime w') < DISPLAY_UPDATE_INTERVAL"
  proof (cases "DISPLAY_UPDATE_INTERVAL \<le> ulong_sub (millis w1) (lastUpdateTime w)")
    case True
    with r show ?thesis by (auto simp: ulong_sub_self DISPLAY_UPDATE_INTERVAL_def)
  next
    case False
    with r show ?thesis by auto
  qed
  with l s r show ?thesis by blast
qed

text \<open>
  Claim C9. A call of \<^verbatim>\<open>loop()\<close> that finds the calibrate flag set runs
  \<^verbatim>\<open>calibrateScale()\<close>, which returns (the environment going on and the busy-wait coming to an
  end), either completed or left through a reset, and on both paths the next thing the
  call does is to clear the flag. The call then runs to its end, and at the end the flag
  is set only if the calibrate interrupt fired again in one of the ticks after the
  clearing.
\<close>

theorem loop_clears_calibrate_flag:
  assumes "n + 27 \<le> length (ticks w)" and "20 \<le> length (hx711 w)"
    and "elapse w = Some w1" and "calibratePressed w1" and "wait_ends n w1"
  shows "\<exists>wc w'. calibrateScale w1 = Some wc \<and>
     (actions wc = actions w @ [Calibrate, Calibrated] \<or>
      actions wc = actions w @ [Calibrate, Reset]) \<and>
     calibrate_if_pressed w1 = Some (wc\<lparr>calibratePressed := False\<rparr>) \<and>
     loop w = Some w' \<and>
     calibratePressed w' = list_ex calIrq (consumed (wc\<lparr>calibratePressed := False\<rparr>) w')"
proof -
  from assms(4,5) have "calibratePressed w1 \<longrightarrow> wait_ends n w1" by simp
  from loop_returns[OF assms(1,2,3) this] obtain w' where l: "loop w = Some w'" by blast
  from loop_flag[OF assms(3,4) l] obtain w2
    where c: "calibrate_if_pressed w1 = Some w2"
      and a: "actions w2 = actions w @ [Calibrate, Calibrated] \<or>
              actions w2 = actions w @ [Calibrate, Reset]"
      and p: "calibratePressed w' = list_ex calIrq (consumed w2 w')"
    by blast
  from c assms(4) obtain wc where wc: "calibrateScale w1 = Some wc"
    and w2: "w2 = wc\<lparr>calibratePressed := False\<rparr>"
    by (auto simp: calibrate_if_pressed_def split: Option.bind_splits)
  from a have "actions wc = actions w @ [Calibrate, Calibrated] \<or>
      actions wc = actions w @ [Calibrate, Reset]"
    by (simp add: w2)
  with wc c p l show ?thesis unfolding w2 by blast
qed

text \<open>
  Claim C10. When the reset flag is consumed inside the calibration wait,
  \<^verbatim>\<open>calibrateScale()\<close> returns with the flag clear, so the reset branch of \<^verbatim>\<open>loop()\<close> runs the
  reset action again in that call only if the reset interrupt fires anew before the test.
  In any execution, the number of runs of the reset action plus the settings of the flag
  still to be seen never grows: each run of the reset action uses up one setting of the
  flag, and no setting is used twice.
\<close>

theorem reset_serviced_once:
  assumes "elapse w = Some w1" and "calibrate_if_pressed w1 = Some w2"
    and "actions w2 = actions w @ [Calibrate, Reset]"
    and "loop w = Some w'" and "run n w' = Some w''"
  shows "\<not> resetPressed w2 \<and>
     count_list (actions w') Reset
       = count_list (actions w) Reset + 1 + of_bool (rstIrq (hd (ticks w2))) \<and>
     count_list (actions w'') Reset + reset_budget w''
       \<le> count_list (actions w) Reset + reset_budget w"
  using assms(4)
proof (cases rule: loopE)
  case (1 u1 u2 w3)
  with assms(1,2) have u: "u1 = w1" "u2 = w2" by simp_all
  note a = loop_elapse_frame[OF assms(1)] and b = calibrate_if_pressed_frame[OF assms(2)]
    and e = elapse_frame[OF 1(3)[unfolded u]]
    and c = loop_elapse_frame[OF 1(3)[unfolded u]] and d = reset_or_refresh_frame[OF 1(4)]
  have n: "\<not> resetPressed w2" using b(3) assms(3) a(1) by (auto split: if_splits)
  then have r3: "resetPressed w3 = rstIrq (hd (ticks w2))" using e by simp
  have "count_list (actions w') Reset
       = count_list (actions w2) Reset + of_bool (rstIrq (hd (ticks w2)))"
    using d(1) c(1) r3 by (auto split: if_splits)
  then have "count_list (actions w') Reset
       = count_list (actions w) Reset + 1 + of_bool (rstIrq (hd (ticks w2)))"
    by (simp add: assms(3))
  moreover have "count_list (actions w'') Reset + reset_budget w''
       \<le> count_list (actions w) Reset + reset_budget w"
    using run_budget[OF assms(5)] loop_budget[OF assms(4)] by linarith
  ultimately show ?thesis using n by simp
qed

section \<open>Concrete executions\<close>

text \<open>
  The model is run by rewriting with its definitions. The continuation of a bind is left
  alone until the step before it has been computed.
\<close>

lemma bind_weak_cong: "m = m' \<Longrightarrow> Option.bind m f = Option.bind m' f"
  by simp

lemma replicate_numeral_unfold:
  "replicate (numeral n) x = x # replicate (pred_numeral n) x"
  by (simp add: numeral_eq_Suc)

lemma sample_sum_numeral:
  "sample_sum (numeral n) acc w = do {
     (v, w') \<leftarrow> scale_read w;
     sample_sum (pred_numeral n) (long_add acc v) w' }"
  by (simp add: numeral_eq_Suc)

lemma run_numeral:
  "run (numeral n) w = do { w \<leftarrow> loop w; run (pred_numeral n) w }"
  by (simp add: numeral_eq_Suc)

lemmas exec_simps =
  Scale_def quiet_def elapse_eq delay_def scale_read_def display_def millis_def
  TARE_SAMPLES_def DISPLAY_UPDATE_INTERVAL_def sample_sum_numeral run_numeral
  replicate_numeral_unfold
  tareScale_def resetScale_def getWeight_def updateDisplay_def calibrateScale_def
  wait_for_reset.simps loop_def calibrate_if_pressed_def Scale_setup_def boot_def setup_log_def
  to_long_def to_ulong_def long_add_def long_sub_def long_div_def ulong_sub_def
  signed_divide_int_def actions_def refresh_times_def

text \<open>The sessions are where \<^verbatim>\<open>setup()\<close> leaves the program.\<close>

lemma calibrate_session_reached: "Scale_setup calibrate_boot = Some calibrate_session"
  by (simp add: calibrate_boot_def calibrate_session_def exec_simps cong: bind_weak_cong)

lemma reset_session_reached: "Scale_setup reset_boot = Some reset_session"
  by (simp add: reset_boot_def reset_session_def exec_simps cong: bind_weak_cong)

lemma late_reset_session_reached: "Scale_setup late_reset_boot = Some late_reset_session"
  by (simp add: late_reset_boot_def late_reset_session_def exec_simps cong: bind_weak_cong)

lemma calibrate_session_loop:
  "map_option (\<lambda>w. (actions w, refresh_times w, lastUpdateTime w, calibratePressed w))
     (loop calibrate_session) = Some ([Calibrate, Calibrated, Refresh], [13101], 5001, False)"
  by (simp add: calibrate_session_def exec_simps cong: bind_weak_cong)

lemma calibrate_session_calibrate:
  "map_option actions (elapse calibrate_session \<bind> calibrateScale)
     = Some [Calibrate, Calibrated]"
  by (simp add: calibrate_session_def exec_simps cong: bind_weak_cong)

lemma reset_session_loop:
  "map_option (\<lambda>w. (actions w, calibratePressed w, resetPressed w)) (loop reset_session)
     = Some ([Calibrate, Reset, Refresh], False, False)"
  by (simp add: reset_session_def exec_simps cong: bind_weak_cong)

lemma reset_session_calibrate:
  "map_option actions (elapse reset_session \<bind> calibrate_if_pressed) = Some [Calibrate, Reset]"
  by (simp add: reset_session_def exec_simps cong: bind_weak_cong)

lemma reset_session_run: "run 2 reset_session \<noteq> None"
  by (simp add: reset_session_def exec_simps cong: bind_weak_cong)

lemma late_reset_session_loop:
  "map_option (\<lambda>w. (actions w, refresh_times w, lastUpdateTime w)) (loop late_reset_session)
     = Some ([Calibrate, Calibrated, Reset], [], 0)"
  by (simp add: late_reset_session_def exec_simps cong: bind_weak_cong)

text \<open>
  Claim C7 as the specification words it fails in both of its halves. At most one
  refresh per 1000 ms of the clock fails when a calibration and a refresh fall into the
  same call of \<^verbatim>\<open>loop()\<close>, as they do when the calibrate button is pressed during start-up.
  The first call samples the time on entry (5001), spends eight seconds in the
  calibration, refreshes the display at 13101 and stores the stale entry time as stamp.
  The next call, entered at 13202, finds more than 1000 ms between its entry time and the
  stamp and refreshes again at 13302: two refreshes 201 ms apart. At least one refresh in
  every 1000 ms without a button action fails because the stamp is the time at which the
  call was entered, while the weight appears only when the amplifier has delivered its
  sample. With no button pressed at all, the first call is entered at 5001 and shows the
  weight at 5011; the call entered at 6001, 1000 ms after the stamp, shows it at 6091:
  the 1000 ms from 5012 to 6011 pass with \<^verbatim>\<open>loop()\<close> running, no button action and no
  refresh.
\<close>

theorem refresh_spacing_counterexample:
  "map_option refresh_times (boot 2 calibrate_boot) = Some [13101, 13302] \<and>
   map_option (\<lambda>w. (actions w, refresh_times w, clock w)) (boot 3 quiet_boot)
     = Some ([Refresh, Refresh], [5011, 6091], 6191)"
  by (simp add: calibrate_boot_def quiet_boot_def exec_simps cong: bind_weak_cong)

lemma f32_round_int: "\<bar>i\<bar> \<le> 2 ^ 24 \<Longrightarrow> f32_round (of_int i) = of_int i"
  using f32_round_repr[of i 0] by simp

lemma long_of_f32_int:
  "- (2 ^ 31) \<le> i \<Longrightarrow> i < 2 ^ 31 \<Longrightarrow> long_of_f32 (of_int i) = i"
  by (simp add: long_of_f32_def)

text \<open>
  The offset that \<^verbatim>\<open>calibrateScale()\<close> subtracts is exactly 29570 counts, and the weight the
  program then computes at the calibration reading is \<open>-200\<close>, whatever that reading was.
\<close>

lemma calibration_offset:
  assumes "- (2 ^ 24) + 29570 \<le> rk" and "rk \<le> 2 ^ 24"
  shows "long_of_f32 (f32_sub (f32_of_long rk) (f32_div KNOWN_WEIGHT CALIBRATION_FACTOR))
           = rk - 29570"
proof -
  have "f32_of_long rk = of_int rk" using assms by (intro f32_of_long_exact) simp
  then have "f32_sub (f32_of_long rk) (f32_div KNOWN_WEIGHT CALIBRATION_FACTOR)
      = f32_round (of_int (rk - 29570))"
    by (simp add: f32_sub_def known_counts)
  also have "\<dots> = of_int (rk - 29570)" using assms by (intro f32_round_int) simp
  finally have "f32_sub (f32_of_long rk) (f32_div KNOWN_WEIGHT CALIBRATION_FACTOR)
      = of_int (rk - 29570)" .
  moreover have "long_of_f32 (of_int (rk - 29570)) = rk - 29570"
    using assms by (intro long_of_f32_int) simp_all
  ultimately show ?thesis by simp
qed

lemma weight_of_29570:
  "f32_mul (f32_mul (f32_of_long 29570) CALIBRATION_FACTOR) (f32_of_long (- 1)) = - 200"
  by code_simp

lemma weight_at_calibration_reading:
  "f32_mul (f32_mul (f32_of_long (long_sub rk (rk - 29570))) CALIBRATION_FACTOR)
           (f32_of_long (- 1)) = - 200"
proof -
  have "long_sub rk (rk - 29570) = 29570" by (simp add: long_sub_def to_long_def)
  then show ?thesis by (simp only: weight_of_29570)
qed

text \<open>
  Claim C2 at a concrete calibration. With 200 g on the scale the amplifier delivers
  16743950. The calibration stores \<open>16743950 - 29570 = 16714380\<close> as tare, as the formula
  \<open>raw_known - known_mass / factor\<close> says; the weight then computed from the same raw
  value is \<open>- (16743950 - 16714380) * factor\<close>, which is \<open>-200\<close> and not the reference mass of
  \<open>200\<close>: the weight computation negates, so the offset has the wrong sign.
\<close>

theorem calibrated_scale_reads_negative:
  "map_option tare (calibrateScale calibrating_200g) = Some 16714380 \<and>
   map_option fst (calibrateScale calibrating_200g \<bind> getWeight) = Some (- 200)"
  using calibration_offset [of 16743950]
  by (simp add: calibrating_200g_def exec_simps weight_of_29570 cong: bind_weak_cong)

theorem calibrateScale_reset_priority_witness:
  "map_option actions (calibrateScale reset_during_wait) = Some [Calibrate, Reset] \<and>
   map_option tare (calibrateScale reset_during_wait) = Some 16773520 \<and>
   map_option resetPressed (calibrateScale reset_during_wait) = Some False \<and>
   map_option actions (calibrateScale reset_at_deadline) = Some [Calibrate, Calibrated] \<and>
   map_option tare (calibrateScale reset_at_deadline) = Some 16714380 \<and>
   map_option resetPressed (calibrateScale reset_at_deadline) = Some True"
proof -
  have m: "sum_list (replicate 10 (16773520::int)) sdiv 10 = 16773520"
    "sum_list (replicate 10 (16743950::int)) sdiv 10 = 16743950"
    by (simp_all add: sum_list_replicate sdiv_ten_times)
  have "\<exists>w'. calibrateScale reset_during_wait = Some w' \<and>
           actions w' = actions reset_during_wait @ [Calibrate, Reset] \<and>
           tare w' = sum_list (replicate 10 16773520) sdiv 10 \<and>
           \<not> resetPressed w'"
    by (rule calibrateScale_reset_priority
          [where n = 2 and rest = "[]" and w = reset_during_wait, THEN conjunct1, rule_format])
       (simp_all add: reset_during_wait_def Scale_def quiet_def)
  moreover have "actions reset_during_wait = []"
    by (simp add: reset_during_wait_def Scale_def actions_def)
  moreover have "\<exists>w'. calibrateScale reset_at_deadline = Some w' \<and>
           actions w' = actions reset_at_deadline @ [Calibrate, Calibrated] \<and>
           tare w' = long_of_f32 (f32_sub (f32_of_long (sum_list (replicate 10 16743950) sdiv 10))
                       (f32_div KNOWN_WEIGHT CALIBRATION_FACTOR)) \<and>
           resetPressed w' = list_ex rstIrq (take (5 + 12) (ticks reset_at_deadline))"
    by (rule calibrateScale_reset_priority
          [where n = 5 and rest = "[]" and w = reset_at_deadline, THEN conjunct2, rule_format])
       (simp_all add: reset_at_deadline_def Scale_def quiet_def replicate_numeral_unfold)
  moreover have "actions reset_at_deadline = []"
    by (simp add: reset_at_deadline_def Scale_def actions_def)
  moreover have "list_ex rstIrq (take (5 + 12) (ticks reset_at_deadline))"
    by (simp add: reset_at_deadline_def Scale_def quiet_def replicate_numeral_unfold)
  ultimately show ?thesis using calibration_offset [of 16743950] by (auto simp: m)
qed

text \<open>
  Claim C3 as the specification words it, a reset at any point of the wait, fails for a
  reset that arrives after the last test of the flag. Here the calibrate button is
  pressed during start-up and 200 g are on the scale; the wait begins at 5001, its last
  turn inside the five seconds tests the flag at 10000, and the reset interrupt fires in
  the millisecond after that, before the test of the time that ends the wait.
  \<^verbatim>\<open>calibrateScale()\<close> completes: it stores the calibration value 16714380 as tare, shows
  its message and returns with the reset flag set. The reset action runs only afterwards,
  from the reset test of \<^verbatim>\<open>loop()\<close>.
\<close>

theorem late_reset_counterexample:
  "map_option (\<lambda>w. (actions w, tare w, resetPressed w))
     (Scale_setup late_reset_boot \<bind> elapse \<bind> calibrateScale)
     = Some ([Calibrate, Calibrated], 16714380, True) \<and>
   map_option actions (boot 1 late_reset_boot) = Some [Calibrate, Calibrated, Reset]"
  using calibration_offset [of 16743950]
  by (simp add: late_reset_boot_def exec_simps cong: bind_weak_cong)

theorem resetScale_rezeroes_witness:
  "map_option tare (resetScale unloaded_scale) = Some 16773520 \<and>
   map_option fst (resetScale unloaded_scale \<bind> getWeight) = Some 0"
proof -
  have "\<exists>w1 v w2. resetScale unloaded_scale = Some w1 \<and> getWeight w1 = Some (v, w2) \<and>
           resetScale (unloaded_scale\<lparr>tare := 0\<rparr>) = resetScale unloaded_scale \<and>
           tare w1 = sum_list (replicate 10 16773520) sdiv 10 \<and>
           \<bar>v\<bar> \<le> of_int (16773520 - 16773520) * CALIBRATION_FACTOR * (1 + (2 ^ 25 + 1) / 2 ^ 48) \<and>
           ((16773520::int) = 16773520 \<longrightarrow> v = 0)"
    by (rule resetScale_rezeroes [where r = 16773520 and rest = "[]"])
       (simp_all add: unloaded_scale_def Scale_def replicate_numeral_unfold)
  moreover have "sum_list (replicate 10 (16773520::int)) sdiv 10 = 16773520"
    by (simp add: sum_list_replicate sdiv_ten_times)
  ultimately show ?thesis by auto
qed

text \<open>
  Claim C6 as the specification words it, a chain of mutually exclusive branches, fails
  when a calibration runs to its end: the same call of \<^verbatim>\<open>loop()\<close> goes on to the refresh
  test and refreshes the display. Here the calibrate button is pressed during start-up,
  and the first call of \<^verbatim>\<open>loop()\<close> runs the calibration and the refresh.
\<close>

theorem dispatch_not_exclusive_counterexample:
  "map_option actions (boot 1 calibrate_boot) = Some [Calibrate, Calibrated, Refresh]"
  using calibrate_session_loop by (auto simp: boot_def calibrate_session_reached)

text \<open>The states in which the first call of \<^verbatim>\<open>loop()\<close> makes its first test.\<close>

lemma calibrate_session_entry:
  "elapse calibrate_session = Some w1 \<Longrightarrow>
     calibratePressed w1 \<and> millis w1 = 5001 \<and> lastUpdateTime calibrate_session = 0 \<and>
     actions calibrate_session = [] \<and> refresh_times calibrate_session = [] \<and>
     wait_ends 4 w1"
  by (auto simp: calibrate_session_def exec_simps wait_ends_def)

lemma reset_session_entry:
  "elapse reset_session = Some w1 \<Longrightarrow>
     calibratePressed w1 \<and> actions reset_session = [] \<and> wait_ends 2 w1"
  by (auto simp: reset_session_def exec_simps wait_ends_def)

lemma late_reset_session_entry:
  "elapse late_reset_session = Some w1 \<Longrightarrow>
     calibratePressed w1 \<and> actions late_reset_session = [] \<and> wait_ends 5 w1"
  by (auto simp: late_reset_session_def exec_simps wait_ends_def)

lemma session_supplies:
  "4 + 27 \<le> length (ticks calibrate_session)" "20 \<le> length (hx711 calibrate_session)"
  "2 + 27 \<le> length (ticks reset_session)" "20 \<le> length (hx711 reset_session)"
  "5 + 27 \<le> length (ticks late_reset_session)" "20 \<le> length (hx711 late_reset_session)"
  by (simp_all add: calibrate_session_def reset_session_def late_reset_session_def)

lemma session_starts:
  "\<exists>w1. elapse calibrate_session = Some w1" "\<exists>w1. elapse reset_session = Some w1"
  "\<exists>w1. elapse late_reset_session = Some w1"
  by (simp_all add: calibrate_session_def reset_session_def late_reset_session_def elapse_eq)

theorem loop_dispatch_witness:
  "(\<exists>w1 w2 w3 w'. loop calibrate_session = Some w' \<and>
      elapse calibrate_session = Some w1 \<and> calibrate_if_pressed w1 = Some w2 \<and>
      elapse w2 = Some w3 \<and> calibratePressed w1 \<and> \<not> calibratePressed w2 \<and>
      actions w2 = [Calibrate, Calibrated] \<and> \<not> resetPressed w3 \<and>
      actions w' = actions w2 @ [Refresh] \<and> lastUpdateTime w' = 5001) \<and>
   (\<exists>w1 w2 w3 w'. loop late_reset_session = Some w' \<and>
      elapse late_reset_session = Some w1 \<and> calibrate_if_pressed w1 = Some w2 \<and>
      elapse w2 = Some w3 \<and> calibratePressed w1 \<and> \<not> calibratePressed w2 \<and>
      actions w2 = [Calibrate, Calibrated] \<and> resetPressed w3 \<and>
      actions w' = actions w2 @ [Reset] \<and> \<not> resetPressed w')"
proof
  from session_starts(1) obtain w1 where e: "elapse calibrate_session = Some w1" by blast
  note s = calibrate_session_entry[OF e]
  from s have h: "calibratePressed w1 \<longrightarrow> wait_ends 4 w1" by simp
  from loop_dispatch [OF session_supplies(1,2) e h] obtain w2 w3 w' where
    l: "loop calibrate_session = Some w'"
    and e': "calibrate_if_pressed w1 = Some w2" "elapse w2 = Some w3"
    and c: "if calibratePressed w1
      then \<not> calibratePressed w2 \<and>
           (actions w2 = actions calibrate_session @ [Calibrate, Calibrated] \<or>
            actions w2 = actions calibrate_session @ [Calibrate, Reset])
      else w2 = w1"
    and r: "if resetPressed w3
      then actions w' = actions w2 @ [Reset] \<and> \<not> resetPressed w'
      else if DISPLAY_UPDATE_INTERVAL \<le> ulong_sub (millis w1) (lastUpdateTime calibrate_session)
      then actions w' = actions w2 @ [Refresh] \<and> lastUpdateTime w' = millis w1
      else w' = w3"
    by blast
  from calibrate_session_loop l have a: "actions w' = [Calibrate, Calibrated, Refresh]" by auto
  have a3: "actions w3 = actions w2" using loop_elapse_frame[OF e'(2)] by simp
  from c s have c': "\<not> calibratePressed w2"
    "actions w2 = [Calibrate, Calibrated] \<or> actions w2 = [Calibrate, Reset]" by simp_all
  have "\<not> resetPressed w3 \<and> actions w' = actions w2 @ [Refresh] \<and> lastUpdateTime w' = 5001"
    using r a a3 c'(2) s by (auto split: if_splits)
  moreover from this a have "actions w2 = [Calibrate, Calibrated]" by simp
  ultimately show "\<exists>w1 w2 w3 w'. loop calibrate_session = Some w' \<and>
      elapse calibrate_session = Some w1 \<and> calibrate_if_pressed w1 = Some w2 \<and>
      elapse w2 = Some w3 \<and> calibratePressed w1 \<and> \<not> calibratePressed w2 \<and>
      actions w2 = [Calibrate, Calibrated] \<and> \<not> resetPressed w3 \<and>
      actions w' = actions w2 @ [Refresh] \<and> lastUpdateTime w' = 5001"
    using l e e' s c' by blast
next
  from session_starts(3) obtain w1 where e: "elapse late_reset_session = Some w1" by blast
  note s = late_reset_session_entry[OF e]
  from s have h: "calibratePressed w1 \<longrightarrow> wait_ends 5 w1" by simp
  from loop_dispatch [OF session_supplies(5,6) e h] obtain w2 w3 w' where
    l: "loop late_reset_session = Some w'"
    and e': "calibrate_if_pressed w1 = Some w2" "elapse w2 = Some w3"
    and c: "if calibratePressed w1
      then \<not> calibratePressed w2 \<and>
           (actions w2 = actions late_reset_session @ [Calibrate, Calibrated] \<or>
            actions w2 = actions late_reset_session @ [Calibrate, Reset])
      else w2 = w1"
    and r: "if resetPressed w3
      then actions w' = actions w2 @ [Reset] \<and> \<not> resetPressed w'
      else if DISPLAY_UPDATE_INTERVAL \<le> ulong_sub (millis w1) (lastUpdateTime late_reset_session)
      then actions w' = actions w2 @ [Refresh] \<and> lastUpdateTime w' = millis w1
      else w' = w3"
    by blast
  from late_reset_session_loop l have a: "actions w' = [Calibrate, Calibrated, Reset]" by auto
  have a3: "actions w3 = actions w2" using loop_elapse_frame[OF e'(2)] by simp
  from c s have c': "\<not> calibratePressed w2"
    "actions w2 = [Calibrate, Calibrated] \<or> actions w2 = [Calibrate, Reset]" by simp_all
  have "resetPressed w3 \<and> actions w' = actions w2 @ [Reset] \<and> \<not> resetPressed w'"
    using r a a3 c'(2) by (auto split: if_splits)
  moreover from this a have "actions w2 = [Calibrate, Calibrated]" by simp
  ultimately show "\<exists>w1 w2 w3 w'. loop late_reset_session = Some w' \<and>
      elapse late_reset_session = Some w1 \<and> calibrate_if_pressed w1 = Some w2 \<and>
      elapse w2 = Some w3 \<and> calibratePressed w1 \<and> \<not> calibratePressed w2 \<and>
      actions w2 = [Calibrate, Calibrated] \<and> resetPressed w3 \<and>
      actions w' = actions w2 @ [Reset] \<and> \<not> resetPressed w'"
    using l e e' s c' by blast
qed

theorem refresh_rate_limit_witness:
  "(\<exists>w1 w'. loop calibrate_session = Some w' \<and> elapse calibrate_session = Some w1 \<and>
      DISPLAY_UPDATE_INTERVAL \<le> ulong_sub (millis w1) (lastUpdateTime calibrate_session) \<and>
      refresh_times w' = [13101] \<and> lastUpdateTime w' = millis w1) \<and>
   (\<exists>w1 w2 w3 w'. loop late_reset_session = Some w' \<and>
      elapse late_reset_session = Some w1 \<and> calibrate_if_pressed w1 = Some w2 \<and>
      elapse w2 = Some w3 \<and> resetPressed w3 \<and>
      refresh_times w' = [] \<and> lastUpdateTime w' = lastUpdateTime late_reset_session)"
proof
  from session_starts(1) obtain w1 where e: "elapse calibrate_session = Some w1" by blast
  note s = calibrate_session_entry[OF e]
  from s have h: "calibratePressed w1 \<longrightarrow> wait_ends 4 w1" by simp
  from refresh_rate_limit [OF session_supplies(1,2) e h] obtain w2 w3 w' where
    l: "loop calibrate_session = Some w'"
    and e': "calibrate_if_pressed w1 = Some w2" "elapse w2 = Some w3"
    and r: "if \<not> resetPressed w3 \<and>
         DISPLAY_UPDATE_INTERVAL \<le> ulong_sub (millis w1) (lastUpdateTime calibrate_session)
      then refresh_times w' = refresh_times calibrate_session @ [clock w3 + dt (hd (ticks w3))] \<and>
           lastUpdateTime w' = millis w1
      else refresh_times w' = refresh_times calibrate_session \<and>
           lastUpdateTime w' = lastUpdateTime calibrate_session"
    by blast
  from calibrate_session_loop l have a: "refresh_times w' = [13101]" by auto
  from r a s have "DISPLAY_UPDATE_INTERVAL \<le> ulong_sub (millis w1) (lastUpdateTime calibrate_session) \<and>
     lastUpdateTime w' = millis w1"
    by (auto split: if_splits)
  with l e a show "\<exists>w1 w'. loop calibrate_session = Some w' \<and>
      elapse calibrate_session = Some w1 \<and>
      DISPLAY_UPDATE_INTERVAL \<le> ulong_sub (millis w1) (lastUpdateTime calibrate_session) \<and>
      refresh_times w' = [13101] \<and> lastUpdateTime w' = millis w1"
    by blast
next
  from session_starts(3) obtain w1 where e: "elapse late_reset_session = Some w1" by blast
  note s = late_reset_session_entry[OF e]
  from s have h: "calibratePressed w1 \<longrightarrow> wait_ends 5 w1" by simp
  from refresh_rate_limit [OF session_supplies(5,6) e h] obtain w2 w3 w' where
    l: "loop late_reset_session = Some w'"
    and e': "calibrate_if_pressed w1 = Some w2" "elapse w2 = Some w3"
    and r: "if \<not> resetPressed w3 \<and>
         DISPLAY_UPDATE_INTERVAL \<le> ulong_sub (millis w1) (lastUpdateTime late_reset_session)
      then refresh_times w' = refresh_times late_reset_session @ [clock w3 + dt (hd (ticks w3))] \<and>
           lastUpdateTime w' = millis w1
      else refresh_times w' = refresh_times late_reset_session \<and>
           lastUpdateTime w' = lastUpdateTime late_reset_session"
    and q: "\<not> resetPressed w3 \<longrightarrow>
        ulong_sub (millis w1) (lastUpdateTime w') < DISPLAY_UPDATE_INTERVAL"
    by blast
  from late_reset_session_loop l have a: "refresh_times w' = []" "lastUpdateTime w' = 0" by auto
  have m: "millis w1 = 5001"
    using e by (auto simp: late_reset_session_def exec_simps)
  have "lastUpdateTime late_reset_session = 0" by (simp add: late_reset_session_def)
  moreover have "resetPressed w3"
    using q a(2) m by (auto simp: ulong_sub_def to_ulong_def DISPLAY_UPDATE_INTERVAL_def)
  ultimately show "\<exists>w1 w2 w3 w'. loop late_reset_session = Some w' \<and>
      elapse late_reset_session = Some w1 \<and> calibrate_if_pressed w1 = Some w2 \<and>
      elapse w2 = Some w3 \<and> resetPressed w3 \<and>
      refresh_times w' = [] \<and> lastUpdateTime w' = lastUpdateTime late_reset_session"
    using l e e' a by auto
qed

theorem loop_clears_calibrate_flag_witness:
  "(\<exists>w1 wc w'. elapse reset_session = Some w1 \<and> calibratePressed w1 \<and>
      calibrateScale w1 = Some wc \<and> actions wc = [Calibrate, Reset] \<and>
      calibrate_if_pressed w1 = Some (wc\<lparr>calibratePressed := False\<rparr>) \<and>
      loop reset_session = Some w' \<and> \<not> calibratePressed w') \<and>
   (\<exists>w1 wc w'. elapse calibrate_session = Some w1 \<and> calibratePressed w1 \<and>
      calibrateScale w1 = Some wc \<and> actions wc = [Calibrate, Calibrated] \<and>
      calibrate_if_pressed w1 = Some (wc\<lparr>calibratePressed := False\<rparr>) \<and>
      loop calibrate_session = Some w' \<and> \<not> calibratePressed w')"
proof
  from session_starts(2) obtain w1 where e: "elapse reset_session = Some w1" by blast
  note s = reset_session_entry[OF e]
  from s have p: "calibratePressed w1" and h: "wait_ends 2 w1" by simp_all
  from loop_clears_calibrate_flag [OF session_supplies(3,4) e p h] obtain wc w' where
    c: "calibrateScale w1 = Some wc"
      "calibrate_if_pressed w1 = Some (wc\<lparr>calibratePressed := False\<rparr>)"
    and l: "loop reset_session = Some w'"
    by blast
  from reset_session_calibrate e c(2) have "actions wc = [Calibrate, Reset]" by simp
  moreover from reset_session_loop l have "\<not> calibratePressed w'" by auto
  ultimately show "\<exists>w1 wc w'. elapse reset_session = Some w1 \<and> calibratePressed w1 \<and>
      calibrateScale w1 = Some wc \<and> actions wc = [Calibrate, Reset] \<and>
      calibrate_if_pressed w1 = Some (wc\<lparr>calibratePressed := False\<rparr>) \<and>
      loop reset_session = Some w' \<and> \<not> calibratePressed w'"
    using e p c l by blast
next
  from session_starts(1) obtain w1 where e: "elapse calibrate_session = Some w1" by blast
  note s = calibrate_session_entry[OF e]
  from s have p: "calibratePressed w1" and h: "wait_ends 4 w1" by simp_all
  from loop_clears_calibrate_flag [OF session_supplies(1,2) e p h] obtain wc w' where
    c: "calibrateScale w1 = Some wc"
      "calibrate_if_pressed w1 = Some (wc\<lparr>calibratePressed := False\<rparr>)"
    and l: "loop calibrate_session = Some w'"
    by blast
  from calibrate_session_calibrate e c(1) have "actions wc = [Calibrate, Calibrated]" by simp
  moreover from calibrate_session_loop l have "\<not> calibratePressed w'" by auto
  ultimately show "\<exists>w1 wc w'. elapse calibrate_session = Some w1 \<and> calibratePressed w1 \<and>
      calibrateScale w1 = Some wc \<and> actions wc = [Calibrate, Calibrated] \<and>
      calibrate_if_pressed w1 = Some (wc\<lparr>calibratePressed := False\<rparr>) \<and>
      loop calibrate_session = Some w' \<and> \<not> calibratePressed w'"
    using e p c l by blast
qed

theorem reset_serviced_once_witness:
  "\<exists>w1 w2 w' w''. elapse reset_session = Some w1 \<and> calibrate_if_pressed w1 = Some w2 \<and>
     loop reset_session = Some w' \<and> run 1 w' = Some w'' \<and>
     actions w2 = [Calibrate, Reset] \<and> \<not> resetPressed w2 \<and>
     count_list (actions w') Reset = 1 \<and>
     count_list (actions w'') Reset + reset_budget w'' \<le> 1"
proof -
  from reset_session_run obtain w' w'' where l: "loop reset_session = Some w'"
    and r: "run 1 w' = Some w''"
    by (auto simp: run_numeral split: Option.bind_splits)
  from reset_session_calibrate obtain w1 w2 where e: "elapse reset_session = Some w1"
    and c: "calibrate_if_pressed w1 = Some w2" and a2: "actions w2 = [Calibrate, Reset]"
    by (auto split: Option.bind_splits)
  have s: "actions reset_session = []" "reset_budget reset_session = 1"
    by (simp_all add: reset_session_def exec_simps reset_budget_def)
  have a2': "actions w2 = actions reset_session @ [Calibrate, Reset]" using a2 s by simp
  from reset_session_loop l have "count_list (actions w') Reset = 1" by auto
  with reset_serviced_once [OF e c a2' l r] s e c l r a2 show ?thesis by auto
qed

end
